theory Spec2Isabelle
  imports Complex_Main "HOL-Library.Word"
begin

unbundle bit_operations_syntax

section \<open>Pitch filter (pitch.c)\<close>

text \<open>
  \<^verbatim>\<open>struct pitch_t\<close> holds three \<^verbatim>\<open>float\<close> fields, and the source computes in
  binary floating point (\<^verbatim>\<open>float\<close> variables, \<^verbatim>\<open>double\<close> constants). What follows is
  the filter over exact real arithmetic: every operation of the source is kept, in the
  source's order and with its constants, and no operation rounds. It is the object of the
  properties that are stated over the real numbers; it is not the value the machine
  returns, which differs from it by the rounding of each operation. The fields
  \<^verbatim>\<open>dt\<close>, \<^verbatim>\<open>x\<close> and \<^verbatim>\<open>v\<close> carry the suffix \<open>_p\<close>, so that the short names stay
  free for variables.
\<close>

record pitch_t =
  dt_p :: real
  x_p :: real
  v_p :: real

definition ALPHA :: real where
  "ALPHA = 1.0 / 512"

definition BETA :: real where
  "BETA = ALPHA / 1024"

definition pitch_init :: "pitch_t \<Rightarrow> real \<Rightarrow> pitch_t" where
  "pitch_init p d = p\<lparr>dt_p := d, x_p := 0.0, v_p := 0.0\<rparr>"

definition pitch_dt_observation :: "pitch_t \<Rightarrow> real \<Rightarrow> pitch_t" where
  "pitch_dt_observation p dx =
     (let predicted_x = x_p p + v_p p * dt_p p;
          predicted_v = v_p p;
          residual_x = dx - predicted_x;
          p = p\<lparr>x_p := predicted_x + residual_x * ALPHA\<rparr>;
          p = p\<lparr>v_p := predicted_v + residual_x * BETA / dt_p p\<rparr>;
          p = p\<lparr>x_p := x_p p - dx\<rparr>
      in p)"

text \<open>The filter fed the same observation \<open>n\<close> times.\<close>

primrec observe_const :: "nat \<Rightarrow> real \<Rightarrow> pitch_t \<Rightarrow> pitch_t" where
  "observe_const 0 c p = p"
| "observe_const (Suc n) c p = pitch_dt_observation (observe_const n c p) c"

text \<open>
  The quadratic form \<open>BETA * a\<^sup>2 - (ALPHA - BETA) * a * b + (1 - ALPHA) * b\<^sup>2\<close> of the
  position \<open>a\<close> and of the velocity error \<open>b\<close> (scaled by \<open>dt\<close>): one observation of a
  constant input multiplies it by \<open>1 - ALPHA\<close>.
\<close>

definition lyap :: "real \<Rightarrow> real \<Rightarrow> real" where
  "lyap a b = BETA * a\<^sup>2 - (ALPHA - BETA) * a * b + (1 - ALPHA) * b\<^sup>2"


section \<open>Track import (track.c)\<close>

subsection \<open>Constants and data\<close>

text \<open>
  Modelled from the spec: the header \<^verbatim>\<open>track.h\<close>, which defines the compile-time
  constants and declares the two structs, is not among the sources. The constants whose
  values the spec leaves open are a parameter \<open>K\<close> of every operation.
  \<^verbatim>\<open>TRACK_CHANNELS\<close> is 2, as the spec fixes it and as the metering loop supposes (it
  reads \<^verbatim>\<open>pcm[0]\<close> and \<^verbatim>\<open>pcm[1]\<close> and steps by one stereo sample).
\<close>

record track_consts =
  TRACK_BLOCK_SAMPLES :: nat
  TRACK_PPM_RES :: nat
  TRACK_OVERVIEW_RES :: nat
  TRACK_MAX_BLOCKS :: nat
  TRACK_RATE :: int

definition TRACK_CHANNELS :: nat where
  "TRACK_CHANNELS = 2"

definition SAMPLE :: nat where
  "SAMPLE = 2 * TRACK_CHANNELS"

definition TRACK_BLOCK_PCM_BYTES :: "track_consts \<Rightarrow> nat" where
  "TRACK_BLOCK_PCM_BYTES K = TRACK_BLOCK_SAMPLES K * SAMPLE"

text \<open>
  What the C compiler demands of the constants: the block size is a positive \<^verbatim>\<open>int\<close>,
  and the two meter resolutions divide it (they are array dimensions and divisors).
\<close>

definition consts_ok :: "track_consts \<Rightarrow> bool" where
  "consts_ok K \<longleftrightarrow>
     0 < TRACK_BLOCK_SAMPLES K \<and> TRACK_BLOCK_SAMPLES K < 2 ^ 31 \<and>
     TRACK_PPM_RES K dvd TRACK_BLOCK_SAMPLES K \<and>
     TRACK_OVERVIEW_RES K dvd TRACK_BLOCK_SAMPLES K"

type_synonym byte = "8 word"

text \<open>
  Modelled from the spec: \<^verbatim>\<open>struct track_block_t\<close> (declared in \<^verbatim>\<open>track.h\<close>) has
  three arrays, \<open>pcm\<close> of \<open>2 * TRACK_BLOCK_SAMPLES\<close> shorts, \<open>ppm\<close> of
  \<open>TRACK_BLOCK_SAMPLES / TRACK_PPM_RES\<close> bytes and \<open>overview\<close> of
  \<open>TRACK_BLOCK_SAMPLES / TRACK_OVERVIEW_RES\<close> bytes. Each is a function from the index to
  the byte stored there; every access of the embedding checks the index against these
  bounds. \<open>pcm\<close> is indexed in bytes, because \<^verbatim>\<open>read\<close> fills it at byte granularity; a
  \<^verbatim>\<open>signed short\<close> is two consecutive bytes, low byte first.
\<close>

record track_block_t =
  pcm :: "nat \<Rightarrow> byte"
  ppm :: "nat \<Rightarrow> byte"
  overview :: "nat \<Rightarrow> byte"

record pollfd =
  pfd :: int
  events :: int
  revents :: int

definition POLLIN :: int where
  "POLLIN = 1"

text \<open>
  Modelled from the spec: \<^verbatim>\<open>struct track_t\<close> (declared in \<^verbatim>\<open>track.h\<close>), with the
  fields that \<^verbatim>\<open>track.c\<close> reads and writes. \<open>block\<close> is the array of block pointers
  and \<open>blocks\<close> the count of slots in use; a slot holds the block it points to, or
  \<open>None\<close> when the pointer was never set or its block has been freed. \<open>pe\<close> holds the
  poll entry it points to. The fields \<^verbatim>\<open>length\<close>, \<^verbatim>\<open>ppm\<close> and \<^verbatim>\<open>overview\<close> carry
  the suffix \<open>_tr\<close>. The two meter accumulators are 32-bit unsigned, as the spec
  says; the byte and sample counters are natural numbers (the block bound keeps them far
  from the width of \<^verbatim>\<open>size_t\<close>). The mutex and the rig are not represented: the
  embedding is sequential.
\<close>

record track_t =
  importer :: string
  pid :: int
  fd :: int
  pe :: "pollfd option"
  artist :: "string option"
  title :: "string option"
  block :: "nat \<Rightarrow> track_block_t option"
  blocks :: nat
  bytes :: nat
  length_tr :: nat
  rate :: int
  ppm_tr :: "32 word"
  overview_tr :: "32 word"

subsection \<open>The process environment\<close>

text \<open>
  What the operating system holds for the process: the open descriptors, the children not
  yet waited for, what the import pipe will deliver to the coming calls of \<^verbatim>\<open>read\<close>,
  what the coming calls of \<^verbatim>\<open>malloc\<close> return, and how often the rig was woken.
\<close>

datatype read_event = Data "byte list" | Eagain | Eio

datatype read_result = Read_Fail bool | Read_Ok "byte list"

record world =
  open_fds :: "int set"
  children :: "int set"
  pipe_in :: "read_event list"
  mallocs :: "track_block_t option list"
  rig_wakeups :: nat

text \<open>
  How a call ends other than by returning: \<^verbatim>\<open>abort()\<close>, a failed \<^verbatim>\<open>assert\<close>, an
  access through a pointer or index that is not valid, and the child side of
  \<^verbatim>\<open>vfork\<close>, which never returns to the caller.
\<close>

datatype error = Abort | Assert_Fail | Fault | Child

text \<open>
  \<^verbatim>\<open>read(fd, buf, len)\<close> on the import pipe. \<open>Data bs\<close> is a run of bytes available at
  once: the call takes at most \<open>len\<close> of them and leaves the rest. \<open>Read_Fail True\<close> is
  the return value -1 with \<^verbatim>\<open>EAGAIN\<close>, \<open>Read_Fail False\<close> with any other error; an
  exhausted pipe whose writer is gone returns 0 bytes. The track reads from one
  descriptor only, so the descriptor is not an argument.
\<close>

definition sys_read :: "world \<Rightarrow> nat \<Rightarrow> read_result \<times> world" where
  "sys_read w len =
     (case pipe_in w of
        [] \<Rightarrow> (Read_Ok [], w)
      | Eagain # es \<Rightarrow> (Read_Fail True, w\<lparr>pipe_in := es\<rparr>)
      | Eio # es \<Rightarrow> (Read_Fail False, w\<lparr>pipe_in := es\<rparr>)
      | Data bs # es \<Rightarrow>
          (Read_Ok (take len bs),
           w\<lparr>pipe_in := (if drop len bs = [] then es else Data (drop len bs) # es)\<rparr>))"

text \<open>
  \<^verbatim>\<open>close\<close>, \<^verbatim>\<open>kill\<close> and \<^verbatim>\<open>waitpid\<close>: \<open>None\<close> is the return value -1. A
  descriptor can be closed when it is open, a process signalled or waited for when it is a
  child not yet waited for; the exit status that \<^verbatim>\<open>waitpid\<close> reports only selects a
  message and is left out. The two process calls are represented for the process id of
  one child, which is what a running import holds. A negative id, which addresses a
  process group or any child, is outside what they represent: there the calls of the
  operating system can succeed where these answer -1. The only negative id a track can
  hold is the -1 that a failed \<^verbatim>\<open>vfork\<close> leaves behind.
\<close>

definition sys_close :: "world \<Rightarrow> int \<Rightarrow> world option" where
  "sys_close w d = (if d \<in> open_fds w then Some (w\<lparr>open_fds := open_fds w - {d}\<rparr>) else None)"

definition sys_kill :: "world \<Rightarrow> int \<Rightarrow> world option" where
  "sys_kill w p = (if p \<in> children w then Some w else None)"

definition sys_waitpid :: "world \<Rightarrow> int \<Rightarrow> world option" where
  "sys_waitpid w p = (if p \<in> children w then Some (w\<lparr>children := children w - {p}\<rparr>) else None)"

text \<open>
  What the environment answers to the three calls of \<^verbatim>\<open>start_import\<close> that may fail:
  the descriptor pair of \<^verbatim>\<open>pipe\<close> (\<open>None\<close>: -1), whether \<^verbatim>\<open>fcntl\<close> succeeds, the return
  value of \<^verbatim>\<open>vfork\<close>, and what the child will write.
\<close>

record spawn_env =
  pipe_res :: "(int \<times> int) option"
  fcntl_ok :: bool
  vfork_res :: int
  child_output :: "read_event list"

subsection \<open>The importer process\<close>

text \<open>
  \<^verbatim>\<open>start_import\<close>, as the parent sees it. The result is the return value with the track
  and the environment as the call leaves them. Messages to \<^verbatim>\<open>stderr\<close> are not
  represented, here and below.
\<close>

definition start_import ::
  "track_consts \<Rightarrow> spawn_env \<Rightarrow> track_t \<Rightarrow> world \<Rightarrow> string \<Rightarrow> error + (int \<times> track_t \<times> world)" where
  "start_import K e tr w path =
     (case pipe_res e of
        None \<Rightarrow> Inr (- 1, tr, w)
      | Some (rd, wr) \<Rightarrow>
          let w = w\<lparr>open_fds := open_fds w \<union> {rd, wr}\<rparr> in
          if \<not> fcntl_ok e then Inr (- 1, tr, w)
          else
            let tr = tr\<lparr>pid := vfork_res e\<rparr> in
            if pid tr = - 1 then Inr (- 1, tr, w)
            else if pid tr = 0 then Inl Child
            else
              let w = w\<lparr>children := insert (pid tr) (children w), pipe_in := child_output e\<rparr> in
              (case sys_close w wr of
                 None \<Rightarrow> Inl Abort
               | Some w \<Rightarrow>
                   Inr (0, tr\<lparr>fd := rd, bytes := 0, length_tr := 0, ppm_tr := 0,
                               overview_tr := 0, rate := TRACK_RATE K\<rparr>, w)))"

definition stop_import :: "track_t \<Rightarrow> world \<Rightarrow> error + (track_t \<times> world)" where
  "stop_import tr w =
     (if \<not> pid tr \<noteq> 0 then Inl Assert_Fail
      else case sys_close w (fd tr) of
        None \<Rightarrow> Inl Abort
      | Some w \<Rightarrow>
          (case sys_waitpid w (pid tr) of
             None \<Rightarrow> Inl Abort
           | Some w \<Rightarrow> Inr (tr\<lparr>pid := 0\<rparr>, w)))"

definition abort_import :: "track_t \<Rightarrow> world \<Rightarrow> error + (track_t \<times> world)" where
  "abort_import tr w =
     (case sys_kill w (pid tr) of
        None \<Rightarrow> Inl Abort
      | Some w \<Rightarrow> stop_import tr w)"

subsection \<open>The block store\<close>

definition more_space :: "track_consts \<Rightarrow> track_t \<Rightarrow> world \<Rightarrow> int \<times> track_t \<times> world" where
  "more_space K tr w =
     (if blocks tr \<ge> TRACK_MAX_BLOCKS K then (- 1, tr, w)
      else case mallocs w of
        [] \<Rightarrow> (- 1, tr, w)
      | None # ms \<Rightarrow> (- 1, tr, w\<lparr>mallocs := ms\<rparr>)
      | Some b # ms \<Rightarrow>
          (0, tr\<lparr>block := (block tr)(blocks tr := Some b), blocks := blocks tr + 1\<rparr>,
           w\<lparr>mallocs := ms\<rparr>))"

text \<open>
  \<^verbatim>\<open>access_pcm_data\<close>: the pointer it returns is the pair of the block slot and the byte
  offset in that block's \<open>pcm\<close>, followed by \<^verbatim>\<open>*len\<close>; \<open>None\<close> is \<^verbatim>\<open>NULL\<close>.
\<close>

definition access_pcm_data ::
  "track_consts \<Rightarrow> track_t \<Rightarrow> world \<Rightarrow> (nat \<times> nat \<times> nat) option \<times> track_t \<times> world" where
  "access_pcm_data K tr w =
     (let blk = bytes tr div TRACK_BLOCK_PCM_BYTES K;
          (r, tr', w') = (if blk = blocks tr then more_space K tr w else (0, tr, w))
      in if r = - 1 then (None, tr', w')
         else
           let fill = bytes tr' mod TRACK_BLOCK_PCM_BYTES K;
               len = TRACK_BLOCK_PCM_BYTES K - fill
           in (Some (blk, fill, len), tr', w'))"

text \<open>
  The bytes a successful \<^verbatim>\<open>read\<close> leaves at the pointer \<open>(blk, fill)\<close>: they must lie in
  the \<open>pcm\<close> array of a live block.
\<close>

definition write_bytes :: "(nat \<Rightarrow> byte) \<Rightarrow> nat \<Rightarrow> byte list \<Rightarrow> (nat \<Rightarrow> byte)" where
  "write_bytes m off bs = (\<lambda>i. if off \<le> i \<and> i < off + length bs then bs ! (i - off) else m i)"

definition store_pcm ::
  "track_consts \<Rightarrow> track_t \<Rightarrow> nat \<Rightarrow> nat \<Rightarrow> byte list \<Rightarrow> error + track_t" where
  "store_pcm K tr blk fill bs =
     (case block tr blk of
        None \<Rightarrow> Inl Fault
      | Some b \<Rightarrow>
          if fill + length bs > TRACK_BLOCK_PCM_BYTES K then Inl Fault
          else Inr (tr\<lparr>block := (block tr)(blk := Some (b\<lparr>pcm := write_bytes (pcm b) fill bs\<rparr>))\<rparr>))"

subsection \<open>Metering and commit\<close>

text \<open>The \<^verbatim>\<open>signed short\<close> at index \<open>i\<close> of \<open>pcm\<close>.\<close>

definition pcm_short :: "(nat \<Rightarrow> byte) \<Rightarrow> nat \<Rightarrow> 16 word" where
  "pcm_short m i = push_bit 8 (ucast (m (2 * i + 1))) OR ucast (m (2 * i))"

text \<open>
  \<^verbatim>\<open>v = abs(pcm[0]) + abs(pcm[1])\<close>: the sum is formed in \<^verbatim>\<open>int\<close> and assigned to an
  \<^verbatim>\<open>unsigned short\<close>.
\<close>

definition meter_v :: "16 word \<Rightarrow> 16 word \<Rightarrow> 16 word" where
  "meter_v l r = word_of_int (\<bar>sint l\<bar> + \<bar>sint r\<bar>)"

text \<open>
  The two meter updates of the loop body. In the first, \<open>v\<close> is converted to the
  accumulator's unsigned type for the comparison and the difference. In the second,
  \<^verbatim>\<open>w = v << 16\<close> is the 32-bit pattern of the shift, stored in an \<^verbatim>\<open>unsigned int\<close>.
\<close>

definition ppm_attack_release :: "16 word \<Rightarrow> 32 word \<Rightarrow> 32 word" where
  "ppm_attack_release v a =
     (if ucast v > a then a + drop_bit 3 (ucast v - a) else a - drop_bit 9 (a - ucast v))"

definition overview_attack_release :: "16 word \<Rightarrow> 32 word \<Rightarrow> 32 word" where
  "overview_attack_release v a =
     (let w = push_bit 16 (ucast v) in
      if w > a then a + drop_bit 8 (w - a) else a - drop_bit 17 (a - w))"

text \<open>
  The loop of \<^verbatim>\<open>commit_pcm_samples\<close>: \<open>n\<close> is \<^verbatim>\<open>samples\<close>, \<open>fill\<close> the sample index in
  the block \<open>b\<close> (\<^verbatim>\<open>pcm\<close> points at sample \<open>fill\<close>). Of the track the loop touches the
  two accumulators only: \<open>p\<close> is \<^verbatim>\<open>tr->ppm\<close> and \<open>ov\<close> is \<^verbatim>\<open>tr->overview\<close>.
\<close>

fun meter_samples ::
  "track_consts \<Rightarrow> nat \<Rightarrow> nat \<Rightarrow> track_block_t \<times> 32 word \<times> 32 word \<Rightarrow>
   error + (track_block_t \<times> 32 word \<times> 32 word)" where
  "meter_samples K 0 fill (b, p, ov) = Inr (b, p, ov)"
| "meter_samples K (Suc n) fill (b, p, ov) =
     (if fill \<ge> TRACK_BLOCK_SAMPLES K then Inl Fault
      else
        let v = meter_v (pcm_short (pcm b) (TRACK_CHANNELS * fill))
                        (pcm_short (pcm b) (TRACK_CHANNELS * fill + 1));
            p = ppm_attack_release v p
        in if fill div TRACK_PPM_RES K \<ge> TRACK_BLOCK_SAMPLES K div TRACK_PPM_RES K then Inl Fault
        else
          let b = b\<lparr>ppm := (ppm b)(fill div TRACK_PPM_RES K := ucast (drop_bit 8 p))\<rparr>;
              ov = overview_attack_release v ov
          in if fill div TRACK_OVERVIEW_RES K \<ge> TRACK_BLOCK_SAMPLES K div TRACK_OVERVIEW_RES K
             then Inl Fault
             else
               let b = b\<lparr>overview := (overview b)(fill div TRACK_OVERVIEW_RES K :=
                                          ucast (drop_bit 24 ov))\<rparr>
               in meter_samples K n (fill + 1) (b, p, ov))"

text \<open>
  \<^verbatim>\<open>commit_pcm_samples\<close>: the block pointer is fetched before the assertion, and
  dereferenced only inside the loop, that is when \<open>samples\<close> is positive.
\<close>

definition commit_pcm_samples :: "track_consts \<Rightarrow> track_t \<Rightarrow> nat \<Rightarrow> error + track_t" where
  "commit_pcm_samples K tr samples =
     (let idx = length_tr tr div TRACK_BLOCK_SAMPLES K;
          fill = length_tr tr mod TRACK_BLOCK_SAMPLES K
      in if \<not> samples \<le> TRACK_BLOCK_SAMPLES K - fill then Inl Assert_Fail
         else
           let tr = tr\<lparr>length_tr := length_tr tr + samples\<rparr> in
           if samples = 0 then Inr tr
           else case block tr idx of
             None \<Rightarrow> Inl Fault
           | Some b \<Rightarrow>
               (case meter_samples K samples fill (b, ppm_tr tr, overview_tr tr) of
                  Inl err \<Rightarrow> Inl err
                | Inr (b, p, ov) \<Rightarrow>
                    Inr (tr\<lparr>ppm_tr := p, overview_tr := ov,
                            block := (block tr)(idx := Some b)\<rparr>)))"

text \<open>
  \<^verbatim>\<open>commit_bytes\<close>: the argument of \<^verbatim>\<open>commit_pcm_samples\<close> is an unsigned difference
  converted to \<^verbatim>\<open>unsigned int\<close>, so it wraps modulo \<open>2 ^ 32\<close>.
\<close>

definition commit_bytes :: "track_consts \<Rightarrow> track_t \<Rightarrow> nat \<Rightarrow> error + track_t" where
  "commit_bytes K tr len =
     (let tr = tr\<lparr>bytes := bytes tr + len\<rparr> in
      commit_pcm_samples K tr
        (nat ((int (bytes tr div SAMPLE) - int (length_tr tr)) mod 2 ^ 32)))"

subsection \<open>The ingest pump\<close>

fun event_size :: "read_event \<Rightarrow> nat" where
  "event_size (Data bs) = Suc (length bs)"
| "event_size Eagain = 1"
| "event_size Eio = 1"

definition pipe_size :: "world \<Rightarrow> nat" where
  "pipe_size w = sum_list (map event_size (pipe_in w))"

text \<open>
  \<^verbatim>\<open>read_from_pipe\<close>: the loop goes round only after a read of at least one byte, which
  takes that byte off the pipe.
\<close>

function read_from_pipe ::
  "track_consts \<Rightarrow> track_t \<Rightarrow> world \<Rightarrow> error + (int \<times> track_t \<times> world)" where
  "read_from_pipe K tr w =
     (case access_pcm_data K tr w of
        (None, tr, w) \<Rightarrow> Inr (- 1, tr, w)
      | (Some (blk, fill, len), tr, w) \<Rightarrow>
          (case sys_read w len of
             (Read_Fail eagain, w) \<Rightarrow> if eagain then Inr (0, tr, w) else Inr (- 1, tr, w)
           | (Read_Ok bs, w) \<Rightarrow>
               if bs = [] then Inr (1, tr, w)
               else (case store_pcm K tr blk fill bs of
                       Inl err \<Rightarrow> Inl err
                     | Inr tr \<Rightarrow>
                         (case commit_bytes K tr (length bs) of
                            Inl err \<Rightarrow> Inl err
                          | Inr tr \<Rightarrow> read_from_pipe K tr w))))"
  by pat_completeness auto
termination
proof (relation "measure (\<lambda>(K, tr, w). pipe_size w)")
  show "wf (measure (\<lambda>(K, tr, w). pipe_size w))"
    by simp
qed (auto simp: access_pcm_data_def more_space_def Let_def sys_read_def pipe_size_def
          split: if_splits list.splits option.splits prod.splits read_event.splits)

subsection \<open>The track controller\<close>

definition track_init :: "track_consts \<Rightarrow> track_t \<Rightarrow> string \<Rightarrow> track_t" where
  "track_init K tr imp =
     tr\<lparr>importer := imp, pid := 0, artist := None, title := None,
        blocks := 0, bytes := 0, length_tr := 0, rate := TRACK_RATE K\<rparr>"

text \<open>The loop of \<^verbatim>\<open>track_clear\<close> that frees the blocks, from slot \<open>n\<close> on.\<close>

function free_blocks :: "track_t \<Rightarrow> nat \<Rightarrow> error + track_t" where
  "free_blocks tr n =
     (if n < blocks tr then
        (case block tr n of
           None \<Rightarrow> Inl Fault
         | Some b \<Rightarrow> free_blocks (tr\<lparr>block := (block tr)(n := None)\<rparr>) (Suc n))
      else Inr tr)"
  by pat_completeness auto
termination
  by (relation "measure (\<lambda>(tr, n). blocks tr - n)") auto

definition track_clear :: "track_t \<Rightarrow> world \<Rightarrow> error + (track_t \<times> world)" where
  "track_clear tr w =
     (case (if pid tr \<noteq> 0 then abort_import tr w else Inr (tr, w)) of
        Inl err \<Rightarrow> Inl err
      | Inr (tr, w) \<Rightarrow>
          (case free_blocks tr 0 of
             Inl err \<Rightarrow> Inl err
           | Inr tr \<Rightarrow> Inr (tr, w)))"

definition track_pollfd :: "track_t \<Rightarrow> int \<times> track_t" where
  "track_pollfd tr =
     (if pid tr \<noteq> 0 then
        (1, tr\<lparr>pe := Some \<lparr>pfd = fd tr, events = POLLIN, revents = 0\<rparr>\<rparr>)
      else (0, tr\<lparr>pe := None\<rparr>))"

definition track_handle ::
  "track_consts \<Rightarrow> track_t \<Rightarrow> world \<Rightarrow> error + (int \<times> track_t \<times> world)" where
  "track_handle K tr w =
     (case pe tr of
        None \<Rightarrow> Inr (0, tr, w)
      | Some slot \<Rightarrow>
          if revents slot = 0 then Inr (0, tr, w)
          else if pid tr \<noteq> 0 then
            (case read_from_pipe K tr w of
               Inl err \<Rightarrow> Inl err
             | Inr (r, tr, w) \<Rightarrow>
                 if r \<noteq> 0 then
                   (case stop_import tr w of
                      Inl err \<Rightarrow> Inl err
                    | Inr (tr, w) \<Rightarrow> Inr (0, tr, w))
                 else Inr (0, tr, w))
          else Inr (0, tr, w))"

definition track_import ::
  "track_consts \<Rightarrow> spawn_env \<Rightarrow> track_t \<Rightarrow> world \<Rightarrow> string \<Rightarrow> error + (int \<times> track_t \<times> world)" where
  "track_import K e tr w path =
     (case (if pid tr \<noteq> 0 then abort_import tr w else Inr (tr, w)) of
        Inl err \<Rightarrow> Inl err
      | Inr (tr, w) \<Rightarrow>
          (case start_import K e tr w path of
             Inl err \<Rightarrow> Inl err
           | Inr (r, tr, w) \<Rightarrow>
               if r < 0 then Inr (- 1, tr, w)
               else Inr (0, tr, w\<lparr>rig_wakeups := rig_wakeups w + 1\<rparr>)))"

subsection \<open>Invariants of the data model\<close>

text \<open>
  The invariants the data model lists for a track, with that of the pointer array: the
  slots in use point to live blocks.
\<close>

definition track_inv :: "track_consts \<Rightarrow> track_t \<Rightarrow> bool" where
  "track_inv K tr \<longleftrightarrow>
     length_tr tr * SAMPLE \<le> bytes tr \<and>
     bytes tr < length_tr tr * SAMPLE + SAMPLE \<and>
     length_tr tr \<le> blocks tr * TRACK_BLOCK_SAMPLES K \<and>
     blocks tr \<le> TRACK_MAX_BLOCKS K \<and>
     (\<forall>i<blocks tr. block tr i \<noteq> None)"

definition malloc_fails :: "world \<Rightarrow> bool" where
  "malloc_fails w \<longleftrightarrow> (case mallocs w of [] \<Rightarrow> True | None # ms \<Rightarrow> True | Some b # ms \<Rightarrow> False)"

subsection \<open>Small instances\<close>

text \<open>Constants, a block, a track and an environment small enough to run the operations on.\<close>

definition K_small :: track_consts where
  "K_small = \<lparr>TRACK_BLOCK_SAMPLES = 4, TRACK_PPM_RES = 2, TRACK_OVERVIEW_RES = 4,
              TRACK_MAX_BLOCKS = 2, TRACK_RATE = 44100\<rparr>"

definition zero_block :: track_block_t where
  "zero_block = \<lparr>pcm = (\<lambda>i. 0), ppm = (\<lambda>i. 0), overview = (\<lambda>i. 0)\<rparr>"

definition idle_track :: track_t where
  "idle_track =
     \<lparr>importer = ''import'', pid = 0, fd = 0, pe = None, artist = None, title = None,
      block = (\<lambda>i. None), blocks = 0, bytes = 0, length_tr = 0, rate = 44100,
      ppm_tr = 0, overview_tr = 0\<rparr>"

definition importing_track :: track_t where
  "importing_track = idle_track\<lparr>pid := 7, fd := 3\<rparr>"

definition quiet_world :: world where
  "quiet_world = \<lparr>open_fds = {}, children = {}, pipe_in = [], mallocs = [], rig_wakeups = 0\<rparr>"

definition importing_world :: world where
  "importing_world = quiet_world\<lparr>open_fds := {3}, children := {7},
                                  mallocs := [Some zero_block, Some zero_block]\<rparr>"


text \<open>A block whose first stereo sample is \<open>(-32768, -32768)\<close>.\<close>

definition loud_block :: track_block_t where
  "loud_block = zero_block\<lparr>pcm := write_bytes (\<lambda>i. 0) 0 [0x00, 0x80, 0x00, 0x80]\<rparr>"


text \<open>A track in the middle of an import: one block, five bytes read, one sample committed.\<close>

definition loaded_track :: track_t where
  "loaded_track = importing_track\<lparr>block := (\<lambda>i. None)(0 := Some zero_block), blocks := 1,
                                   bytes := 5, length_tr := 1\<rparr>"


text \<open>An environment in which \<^verbatim>\<open>pipe\<close> and \<^verbatim>\<open>fcntl\<close> succeed and \<^verbatim>\<open>vfork\<close> fails.\<close>

definition vfork_fails :: spawn_env where
  "vfork_fails = \<lparr>pipe_res = Some (3, 4), fcntl_ok = True, vfork_res = - 1, child_output = []\<rparr>"


subsection \<open>Auxiliary notions for the chunking property\<close>

text \<open>
  One round of the pump after a successful read: the bytes are put at the pointer and
  committed.
\<close>

definition ingest :: "track_consts \<Rightarrow> track_t \<Rightarrow> nat \<Rightarrow> nat \<Rightarrow> byte list \<Rightarrow> error + track_t" where
  "ingest K tr blk fill bs =
     (case store_pcm K tr blk fill bs of
        Inl err \<Rightarrow> Inl err
      | Inr tr \<Rightarrow> commit_bytes K tr (length bs))"

text \<open>The outcome of the pump without what is left in the pipe.\<close>

definition forget_pipe ::
  "error + (int \<times> track_t \<times> world) \<Rightarrow> error + (int \<times> track_t \<times> world)" where
  "forget_pipe res = map_sum id (\<lambda>(r, tr, w). (r, tr, w\<lparr>pipe_in := []\<rparr>)) res"


text \<open>
  The body of the metering loop, for reasoning about it: whether the pass at sample index
  \<open>fill\<close> leaves the arrays of the block, and what it does to the block and to the two
  accumulators otherwise.
\<close>

definition meter_fault :: "track_consts \<Rightarrow> nat \<Rightarrow> bool" where
  "meter_fault K fill \<longleftrightarrow>
     fill \<ge> TRACK_BLOCK_SAMPLES K \<or>
     fill div TRACK_PPM_RES K \<ge> TRACK_BLOCK_SAMPLES K div TRACK_PPM_RES K \<or>
     fill div TRACK_OVERVIEW_RES K \<ge> TRACK_BLOCK_SAMPLES K div TRACK_OVERVIEW_RES K"

definition meter_step ::
  "track_consts \<Rightarrow> nat \<Rightarrow> track_block_t \<times> 32 word \<times> 32 word \<Rightarrow>
   track_block_t \<times> 32 word \<times> 32 word" where
  "meter_step K fill s =
     (case s of (b, p, ov) \<Rightarrow>
        let v = meter_v (pcm_short (pcm b) (TRACK_CHANNELS * fill))
                        (pcm_short (pcm b) (TRACK_CHANNELS * fill + 1));
            p = ppm_attack_release v p;
            ov = overview_attack_release v ov
        in (b\<lparr>ppm := (ppm b)(fill div TRACK_PPM_RES K := ucast (drop_bit 8 p)),
              overview := (overview b)(fill div TRACK_OVERVIEW_RES K := ucast (drop_bit 24 ov))\<rparr>,
            p, ov))"


text \<open>The track of the import above after \<^verbatim>\<open>poll\<close> has reported its descriptor readable.\<close>

definition ready_track :: track_t where
  "ready_track = loaded_track\<lparr>pe := Some \<lparr>pfd = 3, events = POLLIN, revents = 1\<rparr>\<rparr>"


section \<open>Properties of the pitch filter\<close>


lemma obs_x: "x_p (pitch_dt_observation p dx) = (x_p p + v_p p * dt_p p) + (dx - (x_p p + v_p p * dt_p p)) * ALPHA - dx"
  by (simp add: pitch_dt_observation_def Let_def)
lemma obs_v: "v_p (pitch_dt_observation p dx) = v_p p + (dx - (x_p p + v_p p * dt_p p)) * BETA / dt_p p"
  by (simp add: pitch_dt_observation_def Let_def)
lemma obs_dt: "dt_p (pitch_dt_observation p dx) = dt_p p"
  by (simp add: pitch_dt_observation_def Let_def)


lemma lyap_step:
  assumes "dt_p p \<noteq> 0"
  shows "lyap (x_p (pitch_dt_observation p c)) (v_p (pitch_dt_observation p c) * dt_p p - c)
       = (1 - ALPHA) * lyap (x_p p) (v_p p * dt_p p - c)"
  using assms unfolding obs_x obs_v lyap_def
  by (simp add: field_simps power2_eq_square)

lemma lyap_lower_x: "a\<^sup>2 \<le> 2097152 * lyap a b"
proof -
  have "2097152 * lyap a b - a\<^sup>2 = 3 * (a - 682 * b)\<^sup>2 + 697684 * b\<^sup>2"
    by (simp add: lyap_def ALPHA_def BETA_def field_simps power2_eq_square)
  moreover have "0 \<le> 3 * (a - 682 * b)\<^sup>2 + 697684 * b\<^sup>2" by simp
  ultimately show ?thesis by linarith
qed

lemma lyap_lower_y: "b\<^sup>2 \<le> 4 * lyap a b"
proof -
  have "4 * lyap a b - b\<^sup>2 = (1 / 524288) * (2 * a - 1023 * b)\<^sup>2 + (522239 / 524288) * b\<^sup>2"
    by (simp add: lyap_def ALPHA_def BETA_def field_simps power2_eq_square)
  moreover have "0 \<le> (1 / 524288) * (2 * a - 1023 * b)\<^sup>2 + (522239 / 524288) * b\<^sup>2" by simp
  ultimately show ?thesis by linarith
qed

lemma observe_const_dt: "dt_p (observe_const n c p) = dt_p p"
  by (induction n) (simp_all add: obs_dt)

lemma lyap_iter:
  assumes "dt_p p \<noteq> 0"
  shows "lyap (x_p (observe_const n c p)) (v_p (observe_const n c p) * dt_p p - c)
       = (1 - ALPHA) ^ n * lyap (x_p p) (v_p p * dt_p p - c)"
proof (induction n)
  case 0 show ?case by simp
next
  case (Suc n)
  have d: "dt_p (observe_const n c p) \<noteq> 0" using assms by (simp add: observe_const_dt)
  show ?case using lyap_step[OF d, of c] Suc by (simp add: observe_const_dt)
qed

lemma lyap_tendsto:
  assumes "dt_p p \<noteq> 0"
  shows "(\<lambda>n. lyap (x_p (observe_const n c p)) (v_p (observe_const n c p) * dt_p p - c)) \<longlonglongrightarrow> 0"
proof -
  have "(\<lambda>n. (1 - ALPHA) ^ n) \<longlonglongrightarrow> 0"
    by (rule LIMSEQ_realpow_zero) (simp_all add: ALPHA_def)
  then have "(\<lambda>n. (1 - ALPHA) ^ n * lyap (x_p p) (v_p p * dt_p p - c)) \<longlonglongrightarrow> 0 * lyap (x_p p) (v_p p * dt_p p - c)"
    by (rule tendsto_mult_right)
  then show ?thesis using assms by (simp add: lyap_iter)
qed

lemma sq_tendsto_zero:
  fixes f :: "nat \<Rightarrow> real"
  assumes "(\<lambda>n. (f n)\<^sup>2) \<longlonglongrightarrow> 0"
  shows "f \<longlonglongrightarrow> 0"
proof -
  have "(\<lambda>n. sqrt ((f n)\<^sup>2)) \<longlonglongrightarrow> sqrt 0"
    using assms by (rule tendsto_real_sqrt)
  then have "(\<lambda>n. \<bar>f n\<bar>) \<longlonglongrightarrow> 0" by simp
  then show ?thesis by (rule tendsto_rabs_zero_cancel)
qed

lemma x_tendsto:
  assumes "dt_p p \<noteq> 0"
  shows "(\<lambda>n. x_p (observe_const n c p)) \<longlonglongrightarrow> 0"
proof (rule sq_tendsto_zero)
  let ?L = "\<lambda>n. lyap (x_p (observe_const n c p)) (v_p (observe_const n c p) * dt_p p - c)"
  have "(\<lambda>n. 2097152 * ?L n) \<longlonglongrightarrow> 2097152 * 0"
    by (rule tendsto_mult_left) (rule lyap_tendsto[OF assms])
  then have up: "(\<lambda>n. 2097152 * ?L n) \<longlonglongrightarrow> 0" by simp
  show "(\<lambda>n. (x_p (observe_const n c p))\<^sup>2) \<longlonglongrightarrow> 0"
    by (rule tendsto_sandwich[OF _ _ tendsto_const up]) (simp_all add: lyap_lower_x)
qed

lemma y_tendsto:
  assumes "dt_p p \<noteq> 0"
  shows "(\<lambda>n. v_p (observe_const n c p) * dt_p p - c) \<longlonglongrightarrow> 0"
proof (rule sq_tendsto_zero)
  let ?L = "\<lambda>n. lyap (x_p (observe_const n c p)) (v_p (observe_const n c p) * dt_p p - c)"
  have "(\<lambda>n. 4 * ?L n) \<longlonglongrightarrow> 4 * 0"
    by (rule tendsto_mult_left) (rule lyap_tendsto[OF assms])
  then have up: "(\<lambda>n. 4 * ?L n) \<longlonglongrightarrow> 0" by simp
  show "(\<lambda>n. (v_p (observe_const n c p) * dt_p p - c)\<^sup>2) \<longlonglongrightarrow> 0"
    by (rule tendsto_sandwich[OF _ _ tendsto_const up]) (simp_all add: lyap_lower_y)
qed

lemma v_tendsto:
  assumes "dt_p p \<noteq> 0"
  shows "(\<lambda>n. v_p (observe_const n c p)) \<longlonglongrightarrow> c / dt_p p"
proof -
  have "(\<lambda>n. ((v_p (observe_const n c p) * dt_p p - c) + c) / dt_p p) \<longlonglongrightarrow> (0 + c) / dt_p p"
    by (intro tendsto_divide tendsto_add y_tendsto[OF assms] tendsto_const assms)
  then show ?thesis using assms by simp
qed

lemma x_bounded:
  assumes "dt_p p \<noteq> 0"
  shows "\<bar>x_p (observe_const n c p)\<bar> \<le> sqrt (2097152 * lyap (x_p p) (v_p p * dt_p p - c))"
proof -
  let ?V0 = "lyap (x_p p) (v_p p * dt_p p - c)"
  have V0: "0 \<le> ?V0"
    using lyap_lower_y [of "v_p p * dt_p p - c" "x_p p"] zero_le_power2 [of "v_p p * dt_p p - c"]
    by linarith
  have "(1 - ALPHA) ^ n \<le> 1" by (rule power_le_one) (simp_all add: ALPHA_def)
  then have "(1 - ALPHA) ^ n * ?V0 \<le> ?V0" using V0 mult_right_mono[of "(1 - ALPHA) ^ n" 1 ?V0] by simp
  then have "(x_p (observe_const n c p))\<^sup>2 \<le> 2097152 * ?V0"
    using lyap_lower_x[of "x_p (observe_const n c p)" "v_p (observe_const n c p) * dt_p p - c"]
    by (simp add: lyap_iter[OF assms])
  then have "sqrt ((x_p (observe_const n c p))\<^sup>2) \<le> sqrt (2097152 * ?V0)"
    by (rule real_sqrt_le_mono)
  then show ?thesis by simp
qed

lemma fixed_point_iff:
  assumes "dt_p p \<noteq> 0"
  shows "pitch_dt_observation p c = p \<longleftrightarrow> x_p p = 0 \<and> v_p p = c / dt_p p"
proof
  assume fp: "pitch_dt_observation p c = p"
  have "v_p (pitch_dt_observation p c) = v_p p" using fp by simp
  then have r: "c - (x_p p + v_p p * dt_p p) = 0"
    using assms by (simp add: obs_v BETA_def ALPHA_def)
  have "x_p (pitch_dt_observation p c) = x_p p" using fp by simp
  then have "x_p p = 0" using r by (simp add: obs_x)
  moreover have "v_p p = c / dt_p p" using r \<open>x_p p = 0\<close> assms by (simp add: field_simps)
  ultimately show "x_p p = 0 \<and> v_p p = c / dt_p p" by simp
next
  assume h: "x_p p = 0 \<and> v_p p = c / dt_p p"
  then show "pitch_dt_observation p c = p"
    using assms by (simp add: pitch_dt_observation_def Let_def)
qed


text \<open>
  C9: for \<open>dt\<close> nonzero and a constant input \<open>c\<close>, over the real numbers, the state
  \<open>x = 0\<close>, \<open>v = c / dt\<close> is the one and only fixed point of the observation; under the
  constant input stream \<open>v\<close> converges to \<open>c / dt\<close> from every state, and \<open>x\<close> stays
  bounded.
\<close>

theorem pitch_constant_input:
  assumes "dt_p p \<noteq> 0"
  shows "(pitch_dt_observation p c = p \<longleftrightarrow> x_p p = 0 \<and> v_p p = c / dt_p p) \<and>
         (\<lambda>n. v_p (observe_const n c p)) \<longlonglongrightarrow> c / dt_p p \<and>
         (\<exists>B. \<forall>n. \<bar>x_p (observe_const n c p)\<bar> \<le> B)"
proof -
  have "\<forall>n. \<bar>x_p (observe_const n c p)\<bar> \<le> sqrt (2097152 * lyap (x_p p) (v_p p * dt_p p - c))"
    using x_bounded [OF assms] by blast
  then have "\<exists>B. \<forall>n. \<bar>x_p (observe_const n c p)\<bar> \<le> B" ..
  then show ?thesis
    using fixed_point_iff [OF assms] v_tendsto [OF assms] by blast
qed

theorem pitch_constant_input_witness:
  "(\<lambda>n. v_p (observe_const n (1 / 48000) (pitch_init \<lparr>dt_p = 1, x_p = 1, v_p = 1\<rparr> (1 / 48000))))
     \<longlonglongrightarrow> 1"
  using pitch_constant_input [of "pitch_init \<lparr>dt_p = 1, x_p = 1, v_p = 1\<rparr> (1 / 48000)" "1 / 48000"]
  by (simp add: pitch_init_def)

section \<open>Properties of the track import\<close>

declare free_blocks.simps [simp del]

declare read_from_pipe.simps [simp del]

subsection \<open>Metering\<close>

lemma sint16_abs_le: "\<bar>sint (l :: 16 word)\<bar> \<le> 32768"
  using sint_ge [of l] sint_lt [of l] by simp

lemma meter_v_exact:
  assumes "\<not> (l = 0x8000 \<and> r = 0x8000)"
  shows "uint (meter_v l r) = \<bar>sint l\<bar> + \<bar>sint r\<bar>"
proof -
  have l: "- 32768 \<le> sint l" "sint l < 32768" using sint_ge [of l] sint_lt [of l] by simp_all
  have r: "- 32768 \<le> sint r" "sint r < 32768" using sint_ge [of r] sint_lt [of r] by simp_all
  have "sint l \<noteq> - 32768 \<or> sint r \<noteq> - 32768"
  proof (rule ccontr)
    assume "\<not> ?thesis"
    then have "sint l = sint (0x8000 :: 16 word)" "sint r = sint (0x8000 :: 16 word)" by simp_all
    then have "l = 0x8000" "r = 0x8000" by (auto intro: signed_word_eqI [where ?'a = int])
    with assms show False by simp
  qed
  then have "\<bar>sint l\<bar> + \<bar>sint r\<bar> < 65536" using l r by linarith
  moreover have "0 \<le> \<bar>sint l\<bar> + \<bar>sint r\<bar>" by simp
  ultimately show ?thesis
    by (simp add: meter_v_def uint_word_of_int take_bit_eq_mod del: of_int_add)
qed

text \<open>
  C5: the metering of a stereo sample \<open>(L, R)\<close> computes \<open>v = |L| + |R|\<close> exactly,
  also for \<open>L = R = -32768\<close> where \<open>v = 65536\<close>, and then applies the attack or the
  release to the accumulator. The code forms \<open>v\<close> in an \<^verbatim>\<open>unsigned short\<close>: at
  \<open>L = R = -32768\<close> it is 0, and an accumulator at 1000 is released to 999 where the
  attack with \<open>v = 65536\<close> would raise it.
\<close>

theorem meter_full_scale_sample:
  "pcm_short (pcm loud_block) 0 = 0x8000 \<and> pcm_short (pcm loud_block) 1 = 0x8000 \<and>
   sint (0x8000 :: 16 word) = - 32768 \<and>
   meter_v 0x8000 0x8000 = 0 \<and>
   map_sum id (fst \<circ> snd) (meter_samples K_small 1 0 (loud_block, 1000, 0)) = Inr 999"
  by (simp add: K_small_def pcm_short_def loud_block_def write_bytes_def zero_block_def
      TRACK_CHANNELS_def meter_v_def ppm_attack_release_def Let_def)

subsection \<open>The writable region\<close>


lemma block_bytes_pos: "consts_ok K \<Longrightarrow> 0 < TRACK_BLOCK_PCM_BYTES K"
  by (simp add: consts_ok_def TRACK_BLOCK_PCM_BYTES_def SAMPLE_def TRACK_CHANNELS_def)

lemma inv_block_index:
  assumes "consts_ok K" "track_inv K tr"
  shows "bytes tr div TRACK_BLOCK_PCM_BYTES K \<le> blocks tr"
proof -
  let ?BB = "TRACK_BLOCK_PCM_BYTES K"
  have "bytes tr < length_tr tr * SAMPLE + SAMPLE" using assms(2) by (simp add: track_inv_def)
  also have "\<dots> \<le> (blocks tr * TRACK_BLOCK_SAMPLES K) * SAMPLE + SAMPLE"
    using assms(2) by (simp add: track_inv_def)
  also have "\<dots> \<le> blocks tr * ?BB + ?BB"
    using assms(1) by (simp add: TRACK_BLOCK_PCM_BYTES_def consts_ok_def SAMPLE_def TRACK_CHANNELS_def)
  finally have "bytes tr < (blocks tr + 1) * ?BB" by simp
  then have "bytes tr div ?BB < blocks tr + 1" by (rule less_mult_imp_div_less)
  then show ?thesis by simp
qed



text \<open>
  C7: for a track with \<open>bytes = b\<close> that satisfies the invariants of the data model,
  \<^verbatim>\<open>access_pcm_data\<close> returns a window inside one live block, at offset
  \<open>b mod TRACK_BLOCK_PCM_BYTES\<close> and of size \<open>TRACK_BLOCK_PCM_BYTES - b mod
  TRACK_BLOCK_PCM_BYTES\<close>; it allocates a block first when \<open>b\<close> is at the end of the
  last block, and it fails exactly when that allocation is needed and \<^verbatim>\<open>malloc\<close> fails
  or the track already has \<open>TRACK_MAX_BLOCKS\<close> blocks.
\<close>

theorem access_pcm_data_window:
  assumes "consts_ok K" and "track_inv K tr"
  shows "(bytes tr = blocks tr * TRACK_BLOCK_PCM_BYTES K \<longrightarrow>
            bytes tr div TRACK_BLOCK_PCM_BYTES K = blocks tr) \<and>
         (fst (access_pcm_data K tr w) = None \<longleftrightarrow>
            bytes tr div TRACK_BLOCK_PCM_BYTES K = blocks tr \<and>
            (malloc_fails w \<or> blocks tr = TRACK_MAX_BLOCKS K)) \<and>
         (\<forall>blk fill len tr' w'. access_pcm_data K tr w = (Some (blk, fill, len), tr', w') \<longrightarrow>
            blk = bytes tr div TRACK_BLOCK_PCM_BYTES K \<and>
            fill = bytes tr mod TRACK_BLOCK_PCM_BYTES K \<and>
            len = TRACK_BLOCK_PCM_BYTES K - bytes tr mod TRACK_BLOCK_PCM_BYTES K \<and>
            0 < len \<and> fill + len = TRACK_BLOCK_PCM_BYTES K \<and>
            blk < blocks tr' \<and> block tr' blk \<noteq> None \<and>
            (if bytes tr div TRACK_BLOCK_PCM_BYTES K = blocks tr
             then blocks tr' = blocks tr + 1 \<and> block tr' = (block tr)(blocks tr := hd (mallocs w)) \<and>
                  mallocs w' = tl (mallocs w)
             else tr' = tr \<and> w' = w))"
proof -
  let ?BB = "TRACK_BLOCK_PCM_BYTES K"
  have pos: "0 < ?BB" by (rule block_bytes_pos [OF assms(1)])
  have idx: "bytes tr div ?BB \<le> blocks tr" by (rule inv_block_index [OF assms])
  have live: "\<And>i. i < blocks tr \<Longrightarrow> block tr i \<noteq> None" and mx: "blocks tr \<le> TRACK_MAX_BLOCKS K"
    using assms(2) by (simp_all add: track_inv_def)
  have m: "bytes tr mod ?BB < ?BB" using pos by simp
  show ?thesis
  proof (cases "bytes tr div ?BB = blocks tr")
    case True
    then show ?thesis using pos m mx
      by (auto simp: access_pcm_data_def more_space_def malloc_fails_def Let_def
               split: list.splits option.splits if_splits)
  next
    case False
    then have "bytes tr div ?BB < blocks tr" using idx by simp
    then show ?thesis using False pos m live [of "bytes tr div ?BB"]
      by (auto simp: access_pcm_data_def Let_def)
  qed
qed

theorem access_pcm_data_window_witness:
  "consts_ok K_small \<and> track_inv K_small loaded_track \<and> track_inv K_small importing_track \<and>
   access_pcm_data K_small loaded_track importing_world =
     (Some (0, 5, 11), loaded_track, importing_world) \<and>
   fst (access_pcm_data K_small importing_track importing_world) \<noteq> None \<and>
   fst (access_pcm_data K_small importing_track quiet_world) = None"
  using access_pcm_data_window [of K_small loaded_track importing_world]
    access_pcm_data_window [of K_small importing_track importing_world]
    access_pcm_data_window [of K_small importing_track quiet_world]
  by (simp add: consts_ok_def K_small_def track_inv_def loaded_track_def importing_track_def
      idle_track_def importing_world_def quiet_world_def malloc_fails_def
      SAMPLE_def TRACK_CHANNELS_def TRACK_BLOCK_PCM_BYTES_def access_pcm_data_def Let_def)

subsection \<open>Starting the importer\<close>

lemma start_import_pipe_failure:
  "pipe_res e = None \<Longrightarrow> start_import K e tr w path = Inr (- 1, tr, w)"
  by (simp add: start_import_def)

lemma start_import_fcntl_failure:
  "pipe_res e = Some (rd, wr) \<Longrightarrow> \<not> fcntl_ok e \<Longrightarrow>
   start_import K e tr w path = Inr (- 1, tr, w\<lparr>open_fds := open_fds w \<union> {rd, wr}\<rparr>)"
  by (simp add: start_import_def)

lemma start_import_vfork_failure:
  "pipe_res e = Some (rd, wr) \<Longrightarrow> fcntl_ok e \<Longrightarrow> vfork_res e = - 1 \<Longrightarrow>
   start_import K e tr w path =
     Inr (- 1, tr\<lparr>pid := - 1\<rparr>, w\<lparr>open_fds := open_fds w \<union> {rd, wr}\<rparr>)"
  by (simp add: start_import_def Let_def)

text \<open>
  C1: when \<^verbatim>\<open>start_import\<close> fails on an idle track, at \<^verbatim>\<open>pipe\<close>, at \<^verbatim>\<open>fcntl\<close> or at
  \<^verbatim>\<open>vfork\<close>, it returns an error and the track remains idle: no child handle, nothing
  for \<^verbatim>\<open>track_pollfd\<close> to watch. The first two failures leave the track as it was
  (the two lemmas above). When \<^verbatim>\<open>vfork\<close> fails the code has already stored its
  return value: \<open>pid\<close> is -1, the track counts as importing, and \<^verbatim>\<open>track_pollfd\<close>
  returns 1.
\<close>

theorem start_import_vfork_failure_not_idle:
  "pid idle_track = 0 \<and>
   start_import K_small vfork_fails idle_track quiet_world ''track.ogg'' =
     Inr (- 1, idle_track\<lparr>pid := - 1\<rparr>, quiet_world\<lparr>open_fds := {3, 4}\<rparr>) \<and>
   track_import K_small vfork_fails idle_track quiet_world ''track.ogg'' =
     Inr (- 1, idle_track\<lparr>pid := - 1\<rparr>, quiet_world\<lparr>open_fds := {3, 4}\<rparr>) \<and>
   fst (track_pollfd (idle_track\<lparr>pid := - 1\<rparr>)) = 1"
  by (simp add: start_import_def track_import_def vfork_fails_def idle_track_def quiet_world_def
      track_pollfd_def Let_def)

subsection \<open>Clearing the track\<close>

lemma free_blocks_result:
  "free_blocks tr n = Inr tr' \<Longrightarrow>
     tr' = tr\<lparr>block := block tr'\<rparr> \<and>
     (\<forall>i. n \<le> i \<and> i < blocks tr \<longrightarrow> block tr' i = None) \<and>
     (\<forall>i. i < n \<or> blocks tr \<le> i \<longrightarrow> block tr' i = block tr i)"
proof (induction tr n rule: free_blocks.induct)
  case (1 tr n)
  show ?case
  proof (cases "n < blocks tr")
    case False
    with "1.prems" show ?thesis by (auto simp: free_blocks.simps [of tr n])
  next
    case True
    then obtain b where b: "block tr n = Some b"
      using "1.prems" by (cases "block tr n") (simp_all add: free_blocks.simps [of tr n])
    let ?tr1 = "tr\<lparr>block := (block tr)(n := None)\<rparr>"
    have step: "free_blocks ?tr1 (Suc n) = Inr tr'"
      using "1.prems" True b by (simp add: free_blocks.simps [of tr n])
    note ih = "1.IH" [OF True b step]
    have a: "tr' = tr\<lparr>block := block tr'\<rparr>" using ih by simp
    have b: "\<forall>i. n \<le> i \<and> i < blocks tr \<longrightarrow> block tr' i = None"
    proof (intro allI impI)
      fix i assume i: "n \<le> i \<and> i < blocks tr"
      show "block tr' i = None"
      proof (cases "i = n")
        case True
        then show ?thesis using ih by simp
      next
        case False
        then have "Suc n \<le> i" using i by simp
        then show ?thesis using ih i by simp
      qed
    qed
    have c: "\<forall>i. i < n \<or> blocks tr \<le> i \<longrightarrow> block tr' i = block tr i"
      using ih True by auto
    show ?thesis using a b c by blast
  qed
qed

lemma stop_import_result:
  "stop_import tr w = Inr (tr', w') \<Longrightarrow>
     pid tr \<noteq> 0 \<and> tr' = tr\<lparr>pid := 0\<rparr> \<and> fd tr \<in> open_fds w \<and> pid tr \<in> children w \<and>
     w' = w\<lparr>open_fds := open_fds w - {fd tr}, children := children w - {pid tr}\<rparr>"
  by (auto simp: stop_import_def sys_close_def sys_waitpid_def split: if_splits)

lemma abort_import_result:
  "abort_import tr w = Inr (tr', w') \<Longrightarrow> stop_import tr w = Inr (tr', w')"
  by (auto simp: abort_import_def sys_kill_def split: if_splits)

lemma clear_eval: "track_clear loaded_track importing_world =
   Inr (loaded_track\<lparr>pid := 0, block := (\<lambda>i. None)\<rparr>, importing_world\<lparr>open_fds := {}, children := {}\<rparr>)"
  apply (simp add: track_clear_def loaded_track_def importing_track_def idle_track_def importing_world_def quiet_world_def
      abort_import_def stop_import_def sys_kill_def sys_close_def sys_waitpid_def)
  apply (subst free_blocks.simps, simp)
  apply (subst free_blocks.simps, simp)
  done

text \<open>
  C6, as the claim states it: after \<^verbatim>\<open>track_clear\<close> the block list is empty. The count
  of blocks of a track with one block is still 1 after the call.
\<close>

theorem track_clear_keeps_count:
  "map_sum id (blocks \<circ> fst) (track_clear loaded_track importing_world) = Inr 1"
  by (simp add: clear_eval) (simp add: loaded_track_def)

text \<open>
  C6, amended: when \<^verbatim>\<open>track_clear\<close> returns, every block the track held has been
  freed, the child handle is absent, and if an import was running its descriptor is closed
  and its child waited for; the count \<open>blocks\<close> and the descriptor number \<open>fd\<close> keep
  their values.
\<close>

theorem track_clear_releases:
  assumes "track_clear tr w = Inr (tr', w')"
  shows "(\<forall>n<blocks tr. block tr' n = None) \<and> pid tr' = 0 \<and>
         blocks tr' = blocks tr \<and> fd tr' = fd tr \<and>
         (pid tr \<noteq> 0 \<longrightarrow> fd tr \<notin> open_fds w' \<and> pid tr \<notin> children w')"
proof -
  obtain tr1 w1 where a: "(if pid tr \<noteq> 0 then abort_import tr w else Inr (tr, w)) = Inr (tr1, w1)"
    and f: "free_blocks tr1 0 = Inr tr'" and w: "w' = w1"
    using assms by (auto simp: track_clear_def split: sum.splits)
  have s: "pid tr1 = 0 \<and> blocks tr1 = blocks tr \<and> fd tr1 = fd tr \<and>
           (pid tr \<noteq> 0 \<longrightarrow> fd tr \<notin> open_fds w1 \<and> pid tr \<notin> children w1)"
  proof (cases "pid tr = 0")
    case True
    with a show ?thesis by simp
  next
    case False
    with a have "stop_import tr w = Inr (tr1, w1)" by (simp add: abort_import_result)
    from stop_import_result [OF this] show ?thesis by simp
  qed
  note r = free_blocks_result [OF f]
  have eq: "tr' = tr1\<lparr>block := block tr'\<rparr>" using r by blast
  have "pid tr' = pid tr1" "blocks tr' = blocks tr1" "fd tr' = fd tr1"
    by (subst eq, simp)+
  moreover have "\<forall>n<blocks tr1. block tr' n = None" using r by simp
  ultimately show ?thesis using s w by simp
qed

theorem track_clear_releases_witness:
  "track_clear loaded_track importing_world =
     Inr (loaded_track\<lparr>pid := 0, block := (\<lambda>i. None)\<rparr>, importing_world\<lparr>open_fds := {}, children := {}\<rparr>) \<and>
   block (loaded_track\<lparr>pid := 0, block := (\<lambda>i. None)\<rparr>) 0 = None"
  using track_clear_releases [OF clear_eval] by (simp add: clear_eval)

subsection \<open>The metering loop\<close>

lemma meter_index_ok:
  fixes R n f :: nat
  assumes "R dvd n" "0 < n" "f < n"
  shows "f div R < n div R"
proof -
  obtain k where k: "n = R * k" using assms(1) by (auto simp: dvd_def)
  have R: "0 < R" using k assms(2) by (cases R) simp_all
  have "f < k * R" using assms(3) k by (simp add: mult.commute)
  then have "f div R < k" by (rule less_mult_imp_div_less)
  then show ?thesis using k R by simp
qed

lemma meter_fault_iff:
  assumes "consts_ok K"
  shows "meter_fault K fill \<longleftrightarrow> TRACK_BLOCK_SAMPLES K \<le> fill"
proof (cases "fill < TRACK_BLOCK_SAMPLES K")
  case True
  have "fill div TRACK_PPM_RES K < TRACK_BLOCK_SAMPLES K div TRACK_PPM_RES K"
    using assms True by (intro meter_index_ok) (simp_all add: consts_ok_def)
  moreover have "fill div TRACK_OVERVIEW_RES K < TRACK_BLOCK_SAMPLES K div TRACK_OVERVIEW_RES K"
    using assms True by (intro meter_index_ok) (simp_all add: consts_ok_def)
  ultimately show ?thesis using True by (simp add: meter_fault_def)
next
  case False
  then show ?thesis by (simp add: meter_fault_def)
qed

lemma meter_samples_Suc:
  "meter_samples K (Suc n) fill s =
     (if meter_fault K fill then Inl Fault else meter_samples K n (fill + 1) (meter_step K fill s))"
  by (cases s) (simp add: meter_step_def meter_fault_def Let_def)

lemma meter_step_pcm: "pcm (fst (meter_step K fill s)) = pcm (fst s)"
  by (cases s) (simp add: meter_step_def Let_def)

lemma meter_step_frame:
  assumes "\<And>i. 4 * fill \<le> i \<Longrightarrow> i < 4 * fill + 4 \<Longrightarrow> P i = pcm b i"
  shows "meter_step K fill (b\<lparr>pcm := P\<rparr>, p, ov) =
         (case meter_step K fill (b, p, ov) of (b', p', ov') \<Rightarrow> (b'\<lparr>pcm := P\<rparr>, p', ov'))"
proof -
  have l: "pcm_short P (TRACK_CHANNELS * fill) = pcm_short (pcm b) (TRACK_CHANNELS * fill)"
    unfolding pcm_short_def TRACK_CHANNELS_def by (simp add: assms)
  have r: "pcm_short P (TRACK_CHANNELS * fill + 1) = pcm_short (pcm b) (TRACK_CHANNELS * fill + 1)"
    unfolding pcm_short_def TRACK_CHANNELS_def by (simp add: assms)
  have r': "pcm_short P (Suc (TRACK_CHANNELS * fill)) = pcm_short (pcm b) (Suc (TRACK_CHANNELS * fill))"
    using r by simp
  show ?thesis by (simp add: meter_step_def Let_def l r')
qed

lemma meter_samples_ok:
  assumes "consts_ok K"
  shows "fill + n \<le> TRACK_BLOCK_SAMPLES K \<Longrightarrow>
         \<exists>s'. meter_samples K n fill s = Inr s' \<and> pcm (fst s') = pcm (fst s)"
proof (induction n arbitrary: fill s)
  case 0
  show ?case by (cases s) simp
next
  case (Suc n)
  have f: "\<not> meter_fault K fill" using Suc.prems by (simp add: meter_fault_iff [OF assms])
  have le: "fill + 1 + n \<le> TRACK_BLOCK_SAMPLES K" using Suc.prems by simp
  from Suc.IH [OF le, of "meter_step K fill s"] f show ?case
    by (simp add: meter_samples_Suc meter_step_pcm)
qed

lemma meter_samples_split:
  "meter_samples K (n + m) fill s =
     (case meter_samples K n fill s of
        Inl err \<Rightarrow> Inl err
      | Inr s' \<Rightarrow> meter_samples K m (fill + n) s')"
proof (induction n arbitrary: fill s)
  case 0
  show ?case by (cases s) simp
next
  case (Suc n)
  have "meter_samples K (Suc n + m) fill s = meter_samples K (Suc (n + m)) fill s" by simp
  also have "\<dots> = (if meter_fault K fill then Inl Fault
                    else meter_samples K (n + m) (fill + 1) (meter_step K fill s))"
    by (rule meter_samples_Suc)
  also have "\<dots> = (if meter_fault K fill then Inl Fault
                    else case meter_samples K n (fill + 1) (meter_step K fill s) of
                           Inl err \<Rightarrow> Inl err
                         | Inr s' \<Rightarrow> meter_samples K m (fill + 1 + n) s')"
    by (simp only: Suc.IH)
  also have "\<dots> = (case meter_samples K (Suc n) fill s of
                      Inl err \<Rightarrow> Inl err
                    | Inr s' \<Rightarrow> meter_samples K m (fill + Suc n) s')"
    by (simp add: meter_samples_Suc del: meter_samples.simps cong: sum.case_cong)
  finally show ?case .
qed

lemma meter_samples_pcm:
  "(\<And>i. 4 * fill \<le> i \<Longrightarrow> i < 4 * (fill + n) \<Longrightarrow> P i = pcm b i) \<Longrightarrow>
   meter_samples K n fill (b\<lparr>pcm := P\<rparr>, p, ov) =
     (case meter_samples K n fill (b, p, ov) of
        Inl err \<Rightarrow> Inl err
      | Inr (b', p', ov') \<Rightarrow> Inr (b'\<lparr>pcm := P\<rparr>, p', ov'))"
proof (induction n arbitrary: fill b p ov)
  case 0
  show ?case by simp
next
  case (Suc n)
  obtain b1 p1 ov1 where s1: "meter_step K fill (b, p, ov) = (b1, p1, ov1)"
    by (cases "meter_step K fill (b, p, ov)") auto
  have pb: "pcm b1 = pcm b" using meter_step_pcm [of K fill "(b, p, ov)"] s1 by simp
  have fr: "meter_step K fill (b\<lparr>pcm := P\<rparr>, p, ov) = (b1\<lparr>pcm := P\<rparr>, p1, ov1)"
  proof -
    have "meter_step K fill (b\<lparr>pcm := P\<rparr>, p, ov) =
          (case meter_step K fill (b, p, ov) of (b', p', ov') \<Rightarrow> (b'\<lparr>pcm := P\<rparr>, p', ov'))"
      by (rule meter_step_frame) (rule Suc.prems, simp_all)
    then show ?thesis by (simp add: s1)
  qed
  have ih: "meter_samples K n (fill + 1) (b1\<lparr>pcm := P\<rparr>, p1, ov1) =
      (case meter_samples K n (fill + 1) (b1, p1, ov1) of
         Inl err \<Rightarrow> Inl err
       | Inr (b', p', ov') \<Rightarrow> Inr (b'\<lparr>pcm := P\<rparr>, p', ov'))"
  proof (rule Suc.IH)
    fix i assume "4 * (fill + 1) \<le> i" "i < 4 * (fill + 1 + n)"
    then show "P i = pcm b1 i" unfolding pb by (intro Suc.prems) simp_all
  qed
  show ?case
    using ih by (simp add: meter_samples_Suc fr s1 del: meter_samples.simps)
qed

subsection \<open>Positions in the block store\<close>

lemma SAMPLE_4: "SAMPLE = 4" by (simp add: SAMPLE_def TRACK_CHANNELS_def)

lemma block_bytes_4: "TRACK_BLOCK_PCM_BYTES K = TRACK_BLOCK_SAMPLES K * 4"
  by (simp add: TRACK_BLOCK_PCM_BYTES_def SAMPLE_4)

lemma inv_length:
  assumes "track_inv K tr"
  shows "length_tr tr = bytes tr div SAMPLE"
proof -
  have "length_tr tr * 4 \<le> bytes tr" "bytes tr < length_tr tr * 4 + 4"
    using assms by (simp_all add: track_inv_def SAMPLE_4)
  then show ?thesis unfolding SAMPLE_4 by presburger
qed

text \<open>Arithmetic of the byte and sample positions in a block of \<open>S\<close> samples.\<close>

lemma pos_div: fixes b S :: nat shows "b div 4 div S = b div (S * 4)"
proof -
  have "b div (4 * S) = b div 4 div S" by (rule div_mult2_eq)
  then show ?thesis by (simp only: mult.commute [of S 4])
qed

lemma pos_mod: fixes b S :: nat shows "b div 4 mod S = b mod (S * 4) div 4"
proof -
  have "b mod (4 * S) = 4 * (b div 4 mod S) + b mod 4" by (rule mod_mult2_eq)
  then have e: "b mod (S * 4) = 4 * (b div 4 mod S) + b mod 4" by (simp only: mult.commute [of S 4])
  define y where "y = b div 4 mod S"
  define r where "r = b mod 4"
  have "r < 4" by (simp add: r_def)
  then have "(4 * y + r) div 4 = y" by presburger
  then show ?thesis unfolding e y_def r_def by simp
qed

lemma pos_split:
  fixes b S :: nat
  shows "b div 4 = b div (S * 4) * S + b mod (S * 4) div 4"
proof -
  have "b div 4 = (b div 4 div S) * S + b div 4 mod S" by simp
  then show ?thesis by (simp only: pos_div pos_mod)
qed

lemma pos_next:
  fixes b n S :: nat
  assumes "b mod (S * 4) + n < S * 4"
  shows "(b + n) div (S * 4) = b div (S * 4)" and "(b + n) mod (S * 4) = b mod (S * 4) + n"
proof -
  define M where "M = S * 4"
  define q where "q = b div M"
  define f where "f = b mod M"
  have lt: "f + n < M" using assms by (simp add: M_def f_def)
  have e: "b + n = q * M + (f + n)" 
    using div_mult_mod_eq [of b M] by (simp add: q_def f_def)
  have "(q * M + (f + n)) div M = q + (f + n) div M"
    using lt by (intro div_mult_self3) simp
  moreover have "(f + n) div M = 0" using lt by simp
  ultimately have "(b + n) div M = q" by (simp only: e add_0_right)
  then show "(b + n) div (S * 4) = b div (S * 4)" by (simp add: M_def q_def)
  have "(q * M + (f + n)) mod M = (f + n) mod M" by (rule mod_mult_self3)
  moreover have "(f + n) mod M = f + n" using lt by simp
  ultimately have "(b + n) mod M = f + n" by (simp only: e)
  then show "(b + n) mod (S * 4) = b mod (S * 4) + n" by (simp add: M_def f_def)
qed

lemma pos_room:
  fixes b n S :: nat
  assumes "b mod (S * 4) + n \<le> S * 4"
  shows "b div 4 mod S + ((b + n) div 4 - b div 4) \<le> S"
proof -
  define q where "q = b div (S * 4)"
  define f where "f = b mod (S * 4)"
  define t where "t = q * S"
  have b: "b = t * 4 + f"
    using div_mult_mod_eq [of b "S * 4"] by (simp add: q_def f_def t_def mult.assoc)
  have 1: "b div 4 = t + f div 4" unfolding b by presburger
  have 2: "(b + n) div 4 = t + (f + n) div 4" unfolding b by presburger
  have "f + n \<le> S * 4" using assms by (simp add: f_def)
  then have "(f + n) div 4 \<le> (S * 4) div 4" by (rule div_le_mono)
  then have 3: "(f + n) div 4 \<le> S" by simp
  have 4: "f div 4 \<le> (f + n) div 4" by presburger
  have 5: "b div 4 mod S = f div 4" by (simp only: pos_mod f_def)
  have "f div 4 + ((t + (f + n) div 4) - (t + f div 4)) \<le> S" using 3 4 by simp
  then show ?thesis by (simp only: 5 2) (simp only: 1)
qed

subsection \<open>Commit in closed form\<close>

lemma samples_no_wrap:
  fixes a c :: nat
  assumes "c \<le> a" "a - c < 2 ^ 32"
  shows "nat ((int a - int c) mod 2 ^ 32) = a - c"
proof -
  have "int a - int c = int (a - c)" using assms(1) by simp
  moreover have "int (a - c) mod 2 ^ 32 = int (a - c)"
    using assms(2) by (intro mod_pos_pos_trivial) simp_all
  ultimately show ?thesis by (simp only: nat_int)
qed

lemma commit_bytes_closed:
  assumes ok: "consts_ok K"
    and len: "length_tr tr = bytes tr div SAMPLE"
    and blk: "block tr (bytes tr div TRACK_BLOCK_PCM_BYTES K) = Some B"
    and room: "bytes tr mod TRACK_BLOCK_PCM_BYTES K + n \<le> TRACK_BLOCK_PCM_BYTES K"
    and m: "meter_samples K ((bytes tr + n) div SAMPLE - bytes tr div SAMPLE)
              (bytes tr div SAMPLE mod TRACK_BLOCK_SAMPLES K) (B, ppm_tr tr, overview_tr tr)
            = Inr (B', p', ov')"
  shows "commit_bytes K tr n =
           Inr (tr\<lparr>bytes := bytes tr + n, length_tr := (bytes tr + n) div SAMPLE,
                   ppm_tr := p', overview_tr := ov',
                   block := (block tr)(bytes tr div TRACK_BLOCK_PCM_BYTES K := Some B')\<rparr>)"
proof -
  let ?S = "TRACK_BLOCK_SAMPLES K"
  let ?b = "bytes tr"
  let ?tr1 = "tr\<lparr>bytes := bytes tr + n\<rparr>"
  define s where "s = (?b + n) div 4 - ?b div 4"
  have room4: "?b mod (?S * 4) + n \<le> ?S * 4" using room by (simp add: block_bytes_4)
  have fit: "?b div 4 mod ?S + s \<le> ?S" unfolding s_def by (rule pos_room [OF room4])
  have mono: "?b div 4 \<le> (?b + n) div 4" by (rule div_le_mono) simp
  have "s \<le> ?S" using fit by simp
  then have small: "(?b + n) div 4 - ?b div 4 < 2 ^ 32" using ok by (simp add: consts_ok_def s_def)
  have sel: "bytes ?tr1 div SAMPLE = (?b + n) div 4" "length_tr ?tr1 = ?b div 4"
    by (simp_all add: SAMPLE_4 len)
  have wrap: "nat ((int (bytes ?tr1 div SAMPLE) - int (length_tr ?tr1)) mod 2 ^ 32) = s"
    unfolding sel s_def using mono small by (rule samples_no_wrap)
  have cb: "commit_bytes K tr n = commit_pcm_samples K ?tr1 s"
    by (simp only: commit_bytes_def Let_def wrap)
  have idx: "?b div 4 div ?S = ?b div TRACK_BLOCK_PCM_BYTES K"
    by (simp only: pos_div block_bytes_4)
  have newlen: "?b div 4 + s = (?b + n) div 4" using mono by (simp add: s_def)
  have m': "meter_samples K s (?b div 4 mod ?S) (B, ppm_tr tr, overview_tr tr) = Inr (B', p', ov')"
    using m by (simp add: s_def SAMPLE_4)
  show ?thesis
  proof (cases "s = 0")
    case True
    then have "B' = B" "p' = ppm_tr tr" "ov' = overview_tr tr" using m' by simp_all
    moreover have "(block tr)(?b div TRACK_BLOCK_PCM_BYTES K := Some B) = block tr"
      using blk by (simp add: fun_upd_idem)
    ultimately show ?thesis
      unfolding cb using True newlen fit
      by (simp add: commit_pcm_samples_def Let_def SAMPLE_4 len)
  next
    case False
    then show ?thesis
      unfolding cb using newlen fit blk m'
      by (simp add: commit_pcm_samples_def Let_def SAMPLE_4 len idx)
  qed
qed

subsection \<open>One round of the pump\<close>

lemma write_bytes_append:
  "write_bytes (write_bytes m off a) (off + length a) b = write_bytes m off (a @ b)"
  by (rule ext) (auto simp: write_bytes_def nth_append)

lemma write_bytes_below: "i < off \<Longrightarrow> write_bytes m off bs i = m i"
  by (simp add: write_bytes_def)

lemma ingest_closed:
  assumes ok: "consts_ok K"
    and len: "length_tr tr = bytes tr div SAMPLE"
    and blk: "block tr (bytes tr div TRACK_BLOCK_PCM_BYTES K) = Some B"
    and room: "bytes tr mod TRACK_BLOCK_PCM_BYTES K + length bs \<le> TRACK_BLOCK_PCM_BYTES K"
    and m: "meter_samples K ((bytes tr + length bs) div SAMPLE - bytes tr div SAMPLE)
              (bytes tr div SAMPLE mod TRACK_BLOCK_SAMPLES K)
              (B\<lparr>pcm := write_bytes (pcm B) (bytes tr mod TRACK_BLOCK_PCM_BYTES K) bs\<rparr>,
               ppm_tr tr, overview_tr tr)
            = Inr (B', p', ov')"
  shows "ingest K tr (bytes tr div TRACK_BLOCK_PCM_BYTES K) (bytes tr mod TRACK_BLOCK_PCM_BYTES K) bs =
           Inr (tr\<lparr>bytes := bytes tr + length bs, length_tr := (bytes tr + length bs) div SAMPLE,
                   ppm_tr := p', overview_tr := ov',
                   block := (block tr)(bytes tr div TRACK_BLOCK_PCM_BYTES K := Some B')\<rparr>)"
proof -
  let ?q = "bytes tr div TRACK_BLOCK_PCM_BYTES K"
  let ?f = "bytes tr mod TRACK_BLOCK_PCM_BYTES K"
  let ?B1 = "B\<lparr>pcm := write_bytes (pcm B) ?f bs\<rparr>"
  let ?tr1 = "tr\<lparr>block := (block tr)(?q := Some ?B1)\<rparr>"
  have st: "store_pcm K tr ?q ?f bs = Inr ?tr1"
    using blk room by (simp add: store_pcm_def)
  have "commit_bytes K ?tr1 (length bs) =
          Inr (?tr1\<lparr>bytes := bytes ?tr1 + length bs, length_tr := (bytes ?tr1 + length bs) div SAMPLE,
                   ppm_tr := p', overview_tr := ov',
                   block := (block ?tr1)(bytes ?tr1 div TRACK_BLOCK_PCM_BYTES K := Some B')\<rparr>)"
  proof (rule commit_bytes_closed [OF ok])
    show "length_tr ?tr1 = bytes ?tr1 div SAMPLE" using len by simp
    show "block ?tr1 (bytes ?tr1 div TRACK_BLOCK_PCM_BYTES K) = Some ?B1" by simp
    show "bytes ?tr1 mod TRACK_BLOCK_PCM_BYTES K + length bs \<le> TRACK_BLOCK_PCM_BYTES K"
      using room by simp
    show "meter_samples K ((bytes ?tr1 + length bs) div SAMPLE - bytes ?tr1 div SAMPLE)
            (bytes ?tr1 div SAMPLE mod TRACK_BLOCK_SAMPLES K) (?B1, ppm_tr ?tr1, overview_tr ?tr1)
          = Inr (B', p', ov')" using m by simp
  qed
  then show ?thesis by (simp add: ingest_def st)
qed

lemma commit_ok:
  assumes ok: "consts_ok K"
    and inv: "track_inv K tr"
    and live: "bytes tr div TRACK_BLOCK_PCM_BYTES K < blocks tr"
    and room: "bytes tr mod TRACK_BLOCK_PCM_BYTES K + n \<le> TRACK_BLOCK_PCM_BYTES K"
  shows "\<exists>tr'. commit_bytes K tr n = Inr tr' \<and>
               track_inv K tr' \<and> bytes tr' = bytes tr + n \<and>
               length_tr tr' = (bytes tr + n) div SAMPLE \<and>
               length_tr tr \<le> length_tr tr' \<and> blocks tr' = blocks tr \<and>
               pid tr' = pid tr \<and> fd tr' = fd tr \<and> pe tr' = pe tr"
proof -
  let ?S = "TRACK_BLOCK_SAMPLES K"
  let ?BB = "TRACK_BLOCK_PCM_BYTES K"
  let ?q = "bytes tr div ?BB"
  let ?b = "bytes tr"
  have len: "length_tr tr = ?b div SAMPLE" by (rule inv_length [OF inv])
  obtain B where B: "block tr ?q = Some B"
    using inv live by (auto simp: track_inv_def)
  have room4: "?b mod (?S * 4) + n \<le> ?S * 4" using room by (simp add: block_bytes_4)
  have fit: "?b div 4 mod ?S + ((?b + n) div 4 - ?b div 4) \<le> ?S" by (rule pos_room [OF room4])
  have fit': "?b div SAMPLE mod ?S + ((?b + n) div SAMPLE - ?b div SAMPLE) \<le> ?S"
    using fit by (simp add: SAMPLE_4)
  obtain s' where s': "meter_samples K ((?b + n) div SAMPLE - ?b div SAMPLE)
        (?b div SAMPLE mod ?S) (B, ppm_tr tr, overview_tr tr) = Inr s'"
    using meter_samples_ok [OF ok fit'] by blast
  obtain B' p' ov' where t: "s' = (B', p', ov')" by (cases s') auto
  let ?tr' = "tr\<lparr>bytes := ?b + n, length_tr := (?b + n) div SAMPLE,
                   ppm_tr := p', overview_tr := ov', block := (block tr)(?q := Some B')\<rparr>"
  have r: "commit_bytes K tr n = Inr ?tr'"
    by (rule commit_bytes_closed [OF ok len B room]) (simp add: s' t)
  have mono: "?b div 4 \<le> (?b + n) div 4" by (rule div_le_mono) simp
  have up: "(?b + n) div 4 \<le> blocks tr * ?S"
  proof -
    define q0 where "q0 = ?b div (?S * 4)"
    define r0 where "r0 = ?b div 4 mod ?S"
    define d where "d = (?b + n) div 4 - ?b div 4"
    have q0: "q0 = ?b div 4 div ?S" by (simp only: q0_def pos_div)
    have e1: "?b div 4 = q0 * ?S + r0" unfolding q0 r0_def by simp
    have e2: "(?b + n) div 4 = ?b div 4 + d" using mono by (simp add: d_def)
    have e3: "r0 + d \<le> ?S" using fit by (simp only: r0_def d_def)
    have "(?b + n) div 4 = q0 * ?S + (r0 + d)" by (simp only: e2 e1 add.assoc)
    also have "\<dots> \<le> q0 * ?S + ?S" using e3 by simp
    also have "\<dots> = (q0 + 1) * ?S" by simp
    also have "\<dots> \<le> blocks tr * ?S"
      using live by (intro mult_le_mono1) (simp add: block_bytes_4 q0_def)
    finally show ?thesis .
  qed
  have "track_inv K ?tr'"
    using inv up unfolding track_inv_def SAMPLE_4 by simp
  then show ?thesis using r len mono by (auto simp: SAMPLE_4)
qed

lemma ingest_ok:
  assumes ok: "consts_ok K"
    and inv: "track_inv K tr"
    and live: "bytes tr div TRACK_BLOCK_PCM_BYTES K < blocks tr"
    and room: "bytes tr mod TRACK_BLOCK_PCM_BYTES K + length bs \<le> TRACK_BLOCK_PCM_BYTES K"
  shows "\<exists>tr'. ingest K tr (bytes tr div TRACK_BLOCK_PCM_BYTES K)
                  (bytes tr mod TRACK_BLOCK_PCM_BYTES K) bs = Inr tr' \<and>
               track_inv K tr' \<and> bytes tr' = bytes tr + length bs \<and>
               length_tr tr \<le> length_tr tr' \<and> blocks tr' = blocks tr \<and>
               pid tr' = pid tr \<and> fd tr' = fd tr \<and> pe tr' = pe tr"
proof -
  let ?q = "bytes tr div TRACK_BLOCK_PCM_BYTES K"
  let ?f = "bytes tr mod TRACK_BLOCK_PCM_BYTES K"
  obtain B where B: "block tr ?q = Some B"
    using inv live by (auto simp: track_inv_def)
  let ?tr2 = "tr\<lparr>block := (block tr)(?q := Some (B\<lparr>pcm := write_bytes (pcm B) ?f bs\<rparr>))\<rparr>"
  have st: "store_pcm K tr ?q ?f bs = Inr ?tr2"
    using B room by (simp add: store_pcm_def)
  have inv2: "track_inv K ?tr2" using inv by (simp add: track_inv_def)
  have live2: "bytes ?tr2 div TRACK_BLOCK_PCM_BYTES K < blocks ?tr2" using live by simp
  have room2: "bytes ?tr2 mod TRACK_BLOCK_PCM_BYTES K + length bs \<le> TRACK_BLOCK_PCM_BYTES K"
    using room by simp
  from commit_ok [OF ok inv2 live2 room2] show ?thesis
    by (auto simp: ingest_def st)
qed

lemma pos_advance:
  fixes b n S :: nat
  assumes "b mod (S * 4) + n < S * 4"
  shows "b div 4 mod S + ((b + n) div 4 - b div 4) = (b + n) div 4 mod S"
    and "4 * ((b + n) div 4 mod S) \<le> b mod (S * 4) + n"
proof -
  define q where "q = b div (S * 4)"
  define f where "f = b mod (S * 4)"
  define t where "t = q * S"
  have b: "b = t * 4 + f"
    using div_mult_mod_eq [of b "S * 4"] by (simp add: q_def f_def t_def mult.assoc)
  have 1: "b div 4 = t + f div 4" unfolding b by presburger
  have 2: "(b + n) div 4 = t + (f + n) div 4" unfolding b by presburger
  have 4: "f div 4 \<le> (f + n) div 4" by presburger
  have 5: "b div 4 mod S = f div 4" by (simp only: pos_mod f_def)
  have 6: "(b + n) div 4 mod S = (b + n) mod (S * 4) div 4" by (rule pos_mod)
  have 7: "(b + n) mod (S * 4) = f + n" unfolding f_def by (rule pos_next(2) [OF assms])
  have 8: "(b + n) div 4 mod S = (f + n) div 4" by (simp only: 6 7)
  have d: "(b + n) div 4 - b div 4 = (f + n) div 4 - f div 4" by (simp only: 1 2 diff_cancel2 add_diff_cancel_left)
  have "b div 4 mod S + ((b + n) div 4 - b div 4) = f div 4 + ((f + n) div 4 - f div 4)"
    by (simp only: 5 d)
  also have "\<dots> = (f + n) div 4" using 4 by simp
  also have "\<dots> = (b + n) div 4 mod S" by (simp only: 8)
  finally show "b div 4 mod S + ((b + n) div 4 - b div 4) = (b + n) div 4 mod S" .
  have "4 * ((f + n) div 4) \<le> f + n" by presburger
  then show "4 * ((b + n) div 4 mod S) \<le> b mod (S * 4) + n" by (simp only: 8 f_def)
qed

lemma write_bytes_prefix:
  "i < off + length a \<Longrightarrow> write_bytes m off (a @ b) i = write_bytes m off a i"
  by (auto simp: write_bytes_def nth_append)

lemma ingest_compose:
  assumes ok: "consts_ok K"
    and inv: "track_inv K tr"
    and live: "bytes tr div TRACK_BLOCK_PCM_BYTES K < blocks tr"
    and room: "bytes tr mod TRACK_BLOCK_PCM_BYTES K + length a + length b \<le> TRACK_BLOCK_PCM_BYTES K"
    and ne: "b \<noteq> []"
  shows "ingest K tr (bytes tr div TRACK_BLOCK_PCM_BYTES K) (bytes tr mod TRACK_BLOCK_PCM_BYTES K) (a @ b) =
         (case ingest K tr (bytes tr div TRACK_BLOCK_PCM_BYTES K) (bytes tr mod TRACK_BLOCK_PCM_BYTES K) a of
            Inl err \<Rightarrow> Inl err
          | Inr tr1 \<Rightarrow> ingest K tr1 (bytes tr div TRACK_BLOCK_PCM_BYTES K)
                        (bytes tr mod TRACK_BLOCK_PCM_BYTES K + length a) b)"
proof -
  let ?S = "TRACK_BLOCK_SAMPLES K"
  let ?BB = "TRACK_BLOCK_PCM_BYTES K"
  define b0 where "b0 = bytes tr"
  define q where "q = b0 div ?BB"
  define f where "f = b0 mod ?BB"
  define la where "la = length a"
  define lb where "lb = length b"
  define fs where "fs = b0 div 4 mod ?S"
  define n1 where "n1 = (b0 + la) div 4 - b0 div 4"
  define n2 where "n2 = (b0 + la + lb) div 4 - (b0 + la) div 4"
  have BB: "?BB = ?S * 4" by (rule block_bytes_4)
  have lb: "0 < lb" using ne by (simp add: lb_def)
  have room': "f + la + lb \<le> ?BB" using room by (simp add: f_def b0_def la_def lb_def)
  have rooma: "b0 mod (?S * 4) + la < ?S * 4" using room' lb by (simp add: f_def BB)
  have roomab: "b0 mod (?S * 4) + (la + lb) \<le> ?S * 4" using room' by (simp add: f_def BB)
  have len: "length_tr tr = b0 div SAMPLE" unfolding b0_def by (rule inv_length [OF inv])
  obtain B where B: "block tr q = Some B"
    using inv live by (auto simp: track_inv_def q_def b0_def)
  have m1: "b0 div 4 \<le> (b0 + la) div 4" by (rule div_le_mono) simp
  have m2: "(b0 + la) div 4 \<le> (b0 + la + lb) div 4" by (rule div_le_mono) simp
  have n12: "n1 + n2 = (b0 + (la + lb)) div 4 - b0 div 4"
    using m1 m2 by (simp add: n1_def n2_def add.assoc)
  have fit: "fs + (n1 + n2) \<le> ?S" unfolding n12 fs_def by (rule pos_room [OF roomab])
  have adv: "fs + n1 = (b0 + la) div 4 mod ?S" unfolding fs_def n1_def by (rule pos_advance(1) [OF rooma])
  have cov: "4 * (fs + n1) \<le> f + la" unfolding adv f_def BB by (rule pos_advance(2) [OF rooma])
  define P1 where "P1 = write_bytes (pcm B) f a"
  define P where "P = write_bytes (pcm B) f (a @ b)"
  have PP1: "write_bytes P1 (f + la) b = P" unfolding P1_def P_def la_def by (rule write_bytes_append)
  obtain s1 where s1: "meter_samples K n1 fs (B\<lparr>pcm := P1\<rparr>, ppm_tr tr, overview_tr tr) = Inr s1"
    and s1p: "pcm (fst s1) = P1"
    using meter_samples_ok [OF ok, of fs n1 "(B\<lparr>pcm := P1\<rparr>, ppm_tr tr, overview_tr tr)"] fit by auto
  obtain B1 p1 ov1 where t1: "s1 = (B1, p1, ov1)" by (cases s1) auto
  have B1: "pcm B1 = P1" using s1p t1 by simp
  obtain s2 where s2: "meter_samples K n2 (fs + n1) (B1\<lparr>pcm := P\<rparr>, p1, ov1) = Inr s2"
    using meter_samples_ok [OF ok, of "fs + n1" n2 "(B1\<lparr>pcm := P\<rparr>, p1, ov1)"] fit by auto
  obtain B2 p2 ov2 where t2: "s2 = (B2, p2, ov2)" by (cases s2) auto
  have fr: "meter_samples K n1 fs (B\<lparr>pcm := P\<rparr>, ppm_tr tr, overview_tr tr) = Inr (B1\<lparr>pcm := P\<rparr>, p1, ov1)"
  proof -
    have "meter_samples K n1 fs ((B\<lparr>pcm := P1\<rparr>)\<lparr>pcm := P\<rparr>, ppm_tr tr, overview_tr tr) =
          (case meter_samples K n1 fs (B\<lparr>pcm := P1\<rparr>, ppm_tr tr, overview_tr tr) of
             Inl err \<Rightarrow> Inl err
           | Inr (b', p', ov') \<Rightarrow> Inr (b'\<lparr>pcm := P\<rparr>, p', ov'))"
    proof (rule meter_samples_pcm)
      fix i assume "4 * fs \<le> i" "i < 4 * (fs + n1)"
      then have "i < f + length a" using cov by (simp add: la_def)
      then show "P i = pcm (B\<lparr>pcm := P1\<rparr>) i"
        by (simp add: P_def P1_def write_bytes_prefix)
    qed
    then show ?thesis by (simp add: s1 t1)
  qed
  have whole: "meter_samples K (n1 + n2) fs (B\<lparr>pcm := P\<rparr>, ppm_tr tr, overview_tr tr) = Inr (B2, p2, ov2)"
    by (simp only: meter_samples_split fr sum.case s2 t2)
  let ?tr1 = "tr\<lparr>bytes := b0 + la, length_tr := (b0 + la) div SAMPLE,
                 ppm_tr := p1, overview_tr := ov1, block := (block tr)(q := Some B1)\<rparr>"
  have ia: "ingest K tr q f a = Inr ?tr1"
    unfolding q_def f_def b0_def la_def
  proof (rule ingest_closed [OF ok])
    show "length_tr tr = bytes tr div SAMPLE" using len by (simp add: b0_def)
    show "block tr (bytes tr div ?BB) = Some B" using B by (simp add: q_def b0_def)
    show "bytes tr mod ?BB + length a \<le> ?BB" using room by simp
    show "meter_samples K ((bytes tr + length a) div SAMPLE - bytes tr div SAMPLE)
            (bytes tr div SAMPLE mod ?S)
            (B\<lparr>pcm := write_bytes (pcm B) (bytes tr mod ?BB) a\<rparr>, ppm_tr tr, overview_tr tr)
          = Inr (B1, p1, ov1)"
      using s1 t1 by (simp add: n1_def fs_def P1_def f_def b0_def la_def SAMPLE_4)
  qed
  have iab: "ingest K tr q f (a @ b) =
       Inr (tr\<lparr>bytes := b0 + (la + lb), length_tr := (b0 + (la + lb)) div SAMPLE,
               ppm_tr := p2, overview_tr := ov2, block := (block tr)(q := Some B2)\<rparr>)"
  proof -
    have "ingest K tr (bytes tr div ?BB) (bytes tr mod ?BB) (a @ b) =
       Inr (tr\<lparr>bytes := bytes tr + length (a @ b), length_tr := (bytes tr + length (a @ b)) div SAMPLE,
               ppm_tr := p2, overview_tr := ov2, block := (block tr)(bytes tr div ?BB := Some B2)\<rparr>)"
    proof (rule ingest_closed [OF ok])
      show "length_tr tr = bytes tr div SAMPLE" using len by (simp add: b0_def)
      show "block tr (bytes tr div ?BB) = Some B" using B by (simp add: q_def b0_def)
      show "bytes tr mod ?BB + length (a @ b) \<le> ?BB" using room by simp
      show "meter_samples K ((bytes tr + length (a @ b)) div SAMPLE - bytes tr div SAMPLE)
              (bytes tr div SAMPLE mod ?S)
              (B\<lparr>pcm := write_bytes (pcm B) (bytes tr mod ?BB) (a @ b)\<rparr>, ppm_tr tr, overview_tr tr)
            = Inr (B2, p2, ov2)"
        using whole n12 by (simp add: fs_def P_def f_def b0_def la_def lb_def SAMPLE_4)
    qed
    then show ?thesis by (simp add: q_def f_def b0_def la_def lb_def)
  qed
  have q1: "bytes ?tr1 div ?BB = q" "bytes ?tr1 mod ?BB = f + la"
    using pos_next [OF rooma] by (simp_all add: q_def f_def BB)
  have ib: "ingest K ?tr1 q (f + la) b =
       Inr (?tr1\<lparr>bytes := bytes ?tr1 + length b, length_tr := (bytes ?tr1 + length b) div SAMPLE,
               ppm_tr := p2, overview_tr := ov2, block := (block ?tr1)(q := Some B2)\<rparr>)"
  proof -
    have "ingest K ?tr1 (bytes ?tr1 div ?BB) (bytes ?tr1 mod ?BB) b =
       Inr (?tr1\<lparr>bytes := bytes ?tr1 + length b, length_tr := (bytes ?tr1 + length b) div SAMPLE,
               ppm_tr := p2, overview_tr := ov2,
               block := (block ?tr1)(bytes ?tr1 div ?BB := Some B2)\<rparr>)"
    proof (rule ingest_closed [OF ok])
      show "length_tr ?tr1 = bytes ?tr1 div SAMPLE" by simp
      show "block ?tr1 (bytes ?tr1 div ?BB) = Some B1" unfolding q1 by simp
      show "bytes ?tr1 mod ?BB + length b \<le> ?BB" unfolding q1 using room' by (simp add: lb_def)
      have "meter_samples K n2 (fs + n1) (B1\<lparr>pcm := write_bytes (pcm B1) (f + la) b\<rparr>, p1, ov1)
            = Inr (B2, p2, ov2)"
        using s2 t2 by (simp add: B1 PP1)
      then show "meter_samples K ((bytes ?tr1 + length b) div SAMPLE - bytes ?tr1 div SAMPLE)
              (bytes ?tr1 div SAMPLE mod ?S)
              (B1\<lparr>pcm := write_bytes (pcm B1) (bytes ?tr1 mod ?BB) b\<rparr>, ppm_tr ?tr1, overview_tr ?tr1)
            = Inr (B2, p2, ov2)"
        unfolding q1 by (simp add: n2_def adv lb_def SAMPLE_4)
    qed
    then show ?thesis unfolding q1 .
  qed
  have "ingest K tr q f (a @ b) =
        (case ingest K tr q f a of Inl err \<Rightarrow> Inl err | Inr tr1 \<Rightarrow> ingest K tr1 q (f + la) b)"
    unfolding ia iab sum.case ib by (simp add: lb_def add.assoc)
  then show ?thesis by (simp only: q_def f_def b0_def la_def)
qed

subsection \<open>The pump, round by round\<close>

lemma access_pipe:
  "access_pcm_data K tr (w\<lparr>pipe_in := X\<rparr>) =
     (case access_pcm_data K tr w of (r, tr1, w1) \<Rightarrow> (r, tr1, w1\<lparr>pipe_in := X\<rparr>))"
  by (simp add: access_pcm_data_def more_space_def Let_def split: list.splits option.splits)

lemma access_no_alloc:
  assumes "bytes tr div TRACK_BLOCK_PCM_BYTES K < blocks tr"
  shows "access_pcm_data K tr w =
           (Some (bytes tr div TRACK_BLOCK_PCM_BYTES K, bytes tr mod TRACK_BLOCK_PCM_BYTES K,
                  TRACK_BLOCK_PCM_BYTES K - bytes tr mod TRACK_BLOCK_PCM_BYTES K), tr, w)"
  using assms by (simp add: access_pcm_data_def Let_def)

lemma access_inv:
  assumes ok: "consts_ok K" and inv: "track_inv K tr"
    and acc: "access_pcm_data K tr w = (r0, tr1, w1)"
  shows "track_inv K tr1 \<and> bytes tr1 = bytes tr \<and> length_tr tr1 = length_tr tr \<and>
         pid tr1 = pid tr \<and> fd tr1 = fd tr \<and> pe tr1 = pe tr \<and>
         pipe_in w1 = pipe_in w \<and> open_fds w1 = open_fds w \<and> children w1 = children w \<and>
         (\<forall>blk fill len. r0 = Some (blk, fill, len) \<longrightarrow>
            blk = bytes tr div TRACK_BLOCK_PCM_BYTES K \<and>
            fill = bytes tr mod TRACK_BLOCK_PCM_BYTES K \<and>
            len = TRACK_BLOCK_PCM_BYTES K - fill \<and> 0 < len \<and> blk < blocks tr1)"
proof -
  let ?BB = "TRACK_BLOCK_PCM_BYTES K"
  have pos: "0 < ?BB" by (rule block_bytes_pos [OF ok])
  have m: "bytes tr mod ?BB < ?BB" using pos by simp
  have idx: "bytes tr div ?BB \<le> blocks tr" by (rule inv_block_index [OF ok inv])
  show ?thesis
  proof (cases "bytes tr div ?BB = blocks tr")
    case False
    then have "bytes tr div ?BB < blocks tr" using idx by simp
    then show ?thesis using acc inv m by (auto simp: access_no_alloc)
  next
    case True
    have grow: "\<And>b. track_inv K (tr\<lparr>block := (block tr)(blocks tr := Some b), blocks := blocks tr + 1\<rparr>)"
      if "blocks tr < TRACK_MAX_BLOCKS K"
      using inv that by (auto simp: track_inv_def)
    show ?thesis using acc True inv m grow
      by (auto simp: access_pcm_data_def more_space_def Let_def
               split: list.splits option.splits if_splits)
  qed
qed

lemma sys_read_env:
  "sys_read w len = (rr, w2) \<Longrightarrow>
     open_fds w2 = open_fds w \<and> children w2 = children w \<and> mallocs w2 = mallocs w"
  by (auto simp: sys_read_def split: list.splits read_event.splits)

lemma sys_read_data:
  assumes "sys_read w len = (Read_Ok bs, w2)" "bs \<noteq> []"
  shows "pipe_size w2 < pipe_size w \<and> length bs \<le> len"
  using assms
  by (auto simp: sys_read_def pipe_size_def split: list.splits read_event.splits if_splits)

lemma sys_read_Data:
  "sys_read (w\<lparr>pipe_in := Data c # es\<rparr>) len =
     (Read_Ok (take len c), w\<lparr>pipe_in := (if drop len c = [] then es else Data (drop len c) # es)\<rparr>)"
  by (simp add: sys_read_def)

lemma pump_none:
  "access_pcm_data K tr w = (None, tr1, w1) \<Longrightarrow> read_from_pipe K tr w = Inr (- 1, tr1, w1)"
  by (simp add: read_from_pipe.simps [of K tr w])

lemma pump_fail:
  "access_pcm_data K tr w = (Some (blk, fill, len), tr1, w1) \<Longrightarrow>
   sys_read w1 len = (Read_Fail eagain, w2) \<Longrightarrow>
   read_from_pipe K tr w = Inr (if eagain then 0 else - 1, tr1, w2)"
  by (simp add: read_from_pipe.simps [of K tr w])

lemma pump_eof:
  "access_pcm_data K tr w = (Some (blk, fill, len), tr1, w1) \<Longrightarrow>
   sys_read w1 len = (Read_Ok [], w2) \<Longrightarrow>
   read_from_pipe K tr w = Inr (1, tr1, w2)"
  by (simp add: read_from_pipe.simps [of K tr w])

lemma pump_data:
  "access_pcm_data K tr w = (Some (blk, fill, len), tr1, w1) \<Longrightarrow>
   sys_read w1 len = (Read_Ok bs, w2) \<Longrightarrow> bs \<noteq> [] \<Longrightarrow>
   read_from_pipe K tr w =
     (case ingest K tr1 blk fill bs of
        Inl err \<Rightarrow> Inl err
      | Inr tr3 \<Rightarrow> read_from_pipe K tr3 w2)"
  by (simp add: read_from_pipe.simps [of K tr w] ingest_def split: sum.splits)

lemma pump_inv:
  assumes ok: "consts_ok K"
  shows "track_inv K tr \<Longrightarrow>
         \<exists>r tr' w'. read_from_pipe K tr w = Inr (r, tr', w') \<and> track_inv K tr' \<and>
            length_tr tr \<le> length_tr tr' \<and> pid tr' = pid tr \<and> fd tr' = fd tr \<and> pe tr' = pe tr \<and>
            (r = - 1 \<or> r = 0 \<or> r = 1) \<and> open_fds w' = open_fds w \<and> children w' = children w"
proof (induction "pipe_size w" arbitrary: tr w rule: less_induct)
  case less
  obtain r0 tr1 w1 where acc: "access_pcm_data K tr w = (r0, tr1, w1)"
    by (cases "access_pcm_data K tr w") auto
  note a = access_inv [OF ok less.prems acc]
  show ?case
  proof (cases r0)
    case None
    then show ?thesis using pump_none [of K tr w tr1 w1] acc a by simp
  next
    case (Some reg)
    obtain blk fill len where reg: "reg = (blk, fill, len)" by (cases reg) auto
    have acc': "access_pcm_data K tr w = (Some (blk, fill, len), tr1, w1)"
      using acc Some reg by simp
    have r: "blk = bytes tr1 div TRACK_BLOCK_PCM_BYTES K" "fill = bytes tr1 mod TRACK_BLOCK_PCM_BYTES K"
      "len = TRACK_BLOCK_PCM_BYTES K - fill" "blk < blocks tr1"
      using a Some reg by simp_all
    obtain rr w2 where rd: "sys_read w1 len = (rr, w2)" by (cases "sys_read w1 len") auto
    note e = sys_read_env [OF rd]
    show ?thesis
    proof (cases rr)
      case (Read_Fail eagain)
      then show ?thesis using pump_fail [OF acc', of eagain w2] rd a e by auto
    next
      case (Read_Ok bs)
      show ?thesis
      proof (cases "bs = []")
        case True
        then show ?thesis using pump_eof [OF acc', of w2] rd Read_Ok a e by auto
      next
        case False
        have rd': "sys_read w1 len = (Read_Ok bs, w2)" using rd Read_Ok by simp
        note d = sys_read_data [OF rd' False]
        have "bytes tr1 mod TRACK_BLOCK_PCM_BYTES K < TRACK_BLOCK_PCM_BYTES K"
          using block_bytes_pos [OF ok] by simp
        moreover have "length bs \<le> TRACK_BLOCK_PCM_BYTES K - bytes tr1 mod TRACK_BLOCK_PCM_BYTES K"
          using d r by simp
        ultimately have room:
          "bytes tr1 mod TRACK_BLOCK_PCM_BYTES K + length bs \<le> TRACK_BLOCK_PCM_BYTES K"
          by linarith
        have live: "bytes tr1 div TRACK_BLOCK_PCM_BYTES K < blocks tr1" using r by simp
        have inv1: "track_inv K tr1" using a by simp
        obtain tr3 where i: "ingest K tr1 blk fill bs = Inr tr3" and inv3: "track_inv K tr3"
          and f3: "length_tr tr1 \<le> length_tr tr3" "pid tr3 = pid tr1" "fd tr3 = fd tr1" "pe tr3 = pe tr1"
          using ingest_ok [OF ok inv1 live room] r by auto
        have "pipe_size w2 < pipe_size w" using d a by (simp add: pipe_size_def)
        from less.hyps [OF this inv3]
        obtain r' tr' w' where ih: "read_from_pipe K tr3 w2 = Inr (r', tr', w')" "track_inv K tr'"
          "length_tr tr3 \<le> length_tr tr'" "pid tr' = pid tr3" "fd tr' = fd tr3" "pe tr' = pe tr3"
          "r' = - 1 \<or> r' = 0 \<or> r' = 1" "open_fds w' = open_fds w2" "children w' = children w2"
          by blast
        have "read_from_pipe K tr w = Inr (r', tr', w')"
          using pump_data [OF acc' rd' False] i ih(1) by simp
        then show ?thesis using ih f3 a e by auto
      qed
    qed
  qed
qed

subsection \<open>The invariants in the states the operations reach\<close>

text \<open>
  \<^verbatim>\<open>track_init\<close> establishes the invariants of the data model, and every operation
  that returns preserves them.
\<close>

lemma track_init_inv: "track_inv K (track_init K tr imp)"
  by (simp add: track_init_def track_inv_def SAMPLE_4)

lemma start_import_inv:
  assumes "track_inv K tr" and "start_import K e tr w path = Inr (r, tr', w')"
  shows "track_inv K tr'"
  using assms
  by (auto simp: start_import_def track_inv_def Let_def sys_close_def SAMPLE_4
           split: option.splits prod.splits if_splits)

lemma stop_import_inv:
  assumes "track_inv K tr" and "stop_import tr w = Inr (tr', w')"
  shows "track_inv K tr'"
  using assms stop_import_result [OF assms(2)] by (simp add: track_inv_def)

lemma track_import_inv:
  assumes "track_inv K tr" and "track_import K e tr w path = Inr (r, tr', w')"
  shows "track_inv K tr'"
proof -
  obtain tr1 w1 where a: "(if pid tr \<noteq> 0 then abort_import tr w else Inr (tr, w)) = Inr (tr1, w1)"
    using assms(2) by (auto simp: track_import_def split: sum.splits)
  have inv1: "track_inv K tr1"
  proof (cases "pid tr = 0")
    case True
    with a assms(1) show ?thesis by simp
  next
    case False
    with a have "stop_import tr w = Inr (tr1, w1)" by (simp add: abort_import_result)
    then show ?thesis by (rule stop_import_inv [OF assms(1)])
  qed
  obtain r2 w2 where "start_import K e tr1 w1 path = Inr (r2, tr', w2)"
    using assms(2) a by (auto simp: track_import_def split: sum.splits if_splits)
  then show ?thesis by (rule start_import_inv [OF inv1])
qed

lemma track_pollfd_inv: "track_inv K tr \<Longrightarrow> track_inv K (snd (track_pollfd tr))"
  by (simp add: track_pollfd_def track_inv_def)

lemma track_handle_inv:
  assumes ok: "consts_ok K" and inv: "track_inv K tr"
    and h: "track_handle K tr w = Inr (r, tr', w')"
  shows "track_inv K tr'"
proof -
  obtain r1 tr1 w1 where run: "read_from_pipe K tr w = Inr (r1, tr1, w1)" and inv1: "track_inv K tr1"
    using pump_inv [OF ok inv, of w] by blast
  show ?thesis
  proof (cases "\<exists>slot. pe tr = Some slot \<and> revents slot \<noteq> 0 \<and> pid tr \<noteq> 0")
    case False
    then have "tr' = tr" using h by (auto simp: track_handle_def split: option.splits if_splits)
    then show ?thesis using inv by simp
  next
    case True
    then obtain slot where s: "pe tr = Some slot" "revents slot \<noteq> 0" "pid tr \<noteq> 0" by blast
    show ?thesis
    proof (cases "r1 = 0")
      case True
      then have "tr' = tr1" using h s run by (simp add: track_handle_def)
      then show ?thesis using inv1 by simp
    next
      case False
      then obtain u where "stop_import tr1 w1 = Inr (tr', u)"
        using h s run by (auto simp: track_handle_def split: sum.splits)
      then show ?thesis by (rule stop_import_inv [OF inv1])
    qed
  qed
qed

subsection \<open>The commit invariant\<close>

lemma store_pcm_ok:
  assumes inv: "track_inv K tr"
    and live: "blk < blocks tr"
    and room: "fill + length bs \<le> TRACK_BLOCK_PCM_BYTES K"
  shows "\<exists>tr2. store_pcm K tr blk fill bs = Inr tr2 \<and> track_inv K tr2 \<and>
           bytes tr2 = bytes tr \<and> length_tr tr2 = length_tr tr \<and> blocks tr2 = blocks tr"
proof -
  obtain B where B: "block tr blk = Some B" using inv live by (auto simp: track_inv_def)
  then show ?thesis using inv room by (auto simp: store_pcm_def track_inv_def)
qed

lemma small_ok: "consts_ok K_small"
  by (simp add: consts_ok_def K_small_def)

lemma loaded_inv: "track_inv K_small loaded_track"
  by (simp add: track_inv_def K_small_def loaded_track_def importing_track_def idle_track_def SAMPLE_4)

lemma loaded_access:
  "access_pcm_data K_small loaded_track w = (Some (0, 5, 11), loaded_track, w)"
  by (simp add: access_pcm_data_def K_small_def loaded_track_def importing_track_def idle_track_def
      block_bytes_4 Let_def)

text \<open>
  C2: for a track that satisfies the invariants of the data model and any bytes put into the
  region that \<^verbatim>\<open>access_pcm_data\<close> returned, no more than its capacity,
  \<^verbatim>\<open>commit_bytes\<close> returns with \<open>length * 4 \<le> bytes < length * 4 + 4\<close> and with
  \<open>length\<close> not below its old value; the same holds for the whole sequence of commits
  that one run of the pump performs, whatever the pipe delivers.
\<close>

theorem commit_bytes_invariant:
  assumes "consts_ok K" and "track_inv K tr"
    and "access_pcm_data K tr w = (Some (blk, fill, len), tr1, w1)"
    and "length bs \<le> len"
  shows "(\<exists>tr2 tr3. store_pcm K tr1 blk fill bs = Inr tr2 \<and>
            commit_bytes K tr2 (length bs) = Inr tr3 \<and>
            length_tr tr3 * 4 \<le> bytes tr3 \<and> bytes tr3 < length_tr tr3 * 4 + 4 \<and>
            bytes tr3 = bytes tr + length bs \<and> length_tr tr \<le> length_tr tr3 \<and>
            track_inv K tr3) \<and>
         (\<exists>r tr' w'. read_from_pipe K tr w = Inr (r, tr', w') \<and>
            length_tr tr' * 4 \<le> bytes tr' \<and> bytes tr' < length_tr tr' * 4 + 4 \<and>
            length_tr tr \<le> length_tr tr' \<and> track_inv K tr')"
proof -
  let ?BB = "TRACK_BLOCK_PCM_BYTES K"
  note a = access_inv [OF assms(1,2,3)]
  have r: "blk = bytes tr1 div ?BB" "fill = bytes tr1 mod ?BB" "len = ?BB - fill" "blk < blocks tr1"
    and inv1: "track_inv K tr1" and same: "bytes tr1 = bytes tr" "length_tr tr1 = length_tr tr"
    using a by simp_all
  have "fill < ?BB" using block_bytes_pos [OF assms(1)] r by simp
  then have room: "fill + length bs \<le> ?BB" using assms(4) r by linarith
  obtain tr2 where st: "store_pcm K tr1 blk fill bs = Inr tr2" and inv2: "track_inv K tr2"
    and s2: "bytes tr2 = bytes tr1" "length_tr tr2 = length_tr tr1" "blocks tr2 = blocks tr1"
    using store_pcm_ok [OF inv1 r(4) room] by blast
  have live2: "bytes tr2 div ?BB < blocks tr2" using r s2 by simp
  have room2: "bytes tr2 mod ?BB + length bs \<le> ?BB" using room r s2 by simp
  obtain tr3 where c: "commit_bytes K tr2 (length bs) = Inr tr3" and inv3: "track_inv K tr3"
    and s3: "bytes tr3 = bytes tr2 + length bs" "length_tr tr2 \<le> length_tr tr3"
    using commit_ok [OF assms(1) inv2 live2 room2] by blast
  have step: "\<exists>tr2 tr3. store_pcm K tr1 blk fill bs = Inr tr2 \<and>
            commit_bytes K tr2 (length bs) = Inr tr3 \<and>
            length_tr tr3 * 4 \<le> bytes tr3 \<and> bytes tr3 < length_tr tr3 * 4 + 4 \<and>
            bytes tr3 = bytes tr + length bs \<and> length_tr tr \<le> length_tr tr3 \<and>
            track_inv K tr3"
    using st c inv3 s3 s2 same by (auto simp: track_inv_def SAMPLE_4)
  have run: "\<exists>r tr' w'. read_from_pipe K tr w = Inr (r, tr', w') \<and>
            length_tr tr' * 4 \<le> bytes tr' \<and> bytes tr' < length_tr tr' * 4 + 4 \<and>
            length_tr tr \<le> length_tr tr' \<and> track_inv K tr'"
    using pump_inv [OF assms(1,2), of w] by (auto simp: track_inv_def SAMPLE_4)
  show ?thesis using step run by blast
qed

theorem commit_bytes_invariant_witness:
  "consts_ok K_small \<and> track_inv K_small loaded_track \<and>
   access_pcm_data K_small loaded_track importing_world = (Some (0, 5, 11), loaded_track, importing_world) \<and>
   length [1, 2, 3 :: byte] \<le> 11 \<and>
   (\<exists>tr2 tr3. store_pcm K_small loaded_track 0 5 [1, 2, 3] = Inr tr2 \<and>
      commit_bytes K_small tr2 (length [1, 2, 3 :: byte]) = Inr tr3 \<and>
      length_tr tr3 * 4 \<le> bytes tr3 \<and> bytes tr3 < length_tr tr3 * 4 + 4 \<and>
      bytes tr3 = bytes loaded_track + length [1, 2, 3 :: byte] \<and>
      length_tr loaded_track \<le> length_tr tr3 \<and> track_inv K_small tr3)"
proof -
  have l: "length [1, 2, 3 :: byte] \<le> 11" by simp
  show ?thesis
    using commit_bytes_invariant [OF small_ok loaded_inv loaded_access l, of importing_world]
      small_ok loaded_inv loaded_access [of importing_world] l
    by blast
qed

subsection \<open>The assertion of the commit\<close>

text \<open>
  C10: when at most the capacity that \<^verbatim>\<open>access_pcm_data\<close> returned is committed, the
  count of new samples does not wrap, satisfies the bound \<open>samples \<le> TRACK_BLOCK_SAMPLES -
  fill\<close> that \<^verbatim>\<open>commit_pcm_samples\<close> asserts, and the new samples lie in the block of
  the region, below sample index \<open>TRACK_BLOCK_SAMPLES\<close>; \<^verbatim>\<open>commit_bytes\<close> returns, so
  neither the assertion fails nor an index leaves its array.
\<close>

theorem commit_within_block:
  assumes "consts_ok K" and "track_inv K tr"
    and "access_pcm_data K tr w = (Some (blk, fill, len), tr1, w1)"
    and "n \<le> len"
  shows "nat ((int ((bytes tr1 + n) div SAMPLE) - int (length_tr tr1)) mod 2 ^ 32)
           = (bytes tr1 + n) div SAMPLE - length_tr tr1 \<and>
         (bytes tr1 + n) div SAMPLE - length_tr tr1
           \<le> TRACK_BLOCK_SAMPLES K - length_tr tr1 mod TRACK_BLOCK_SAMPLES K \<and>
         length_tr tr1 mod TRACK_BLOCK_SAMPLES K + ((bytes tr1 + n) div SAMPLE - length_tr tr1)
           \<le> TRACK_BLOCK_SAMPLES K \<and>
         length_tr tr1 div TRACK_BLOCK_SAMPLES K = blk \<and>
         (\<exists>tr3. commit_bytes K tr1 n = Inr tr3 \<and> length_tr tr3 = (bytes tr1 + n) div SAMPLE)"
proof -
  let ?BB = "TRACK_BLOCK_PCM_BYTES K"
  let ?S = "TRACK_BLOCK_SAMPLES K"
  let ?b = "bytes tr1"
  note a = access_inv [OF assms(1,2,3)]
  have r: "blk = ?b div ?BB" "fill = ?b mod ?BB" "len = ?BB - fill" "blk < blocks tr1"
    and inv1: "track_inv K tr1"
    using a by simp_all
  have "fill < ?BB" using block_bytes_pos [OF assms(1)] r by simp
  then have room: "?b mod ?BB + n \<le> ?BB" using assms(4) r by linarith
  have live: "?b div ?BB < blocks tr1" using r by simp
  have len: "length_tr tr1 = ?b div 4" using inv_length [OF inv1] by (simp add: SAMPLE_4)
  have room4: "?b mod (?S * 4) + n \<le> ?S * 4" using room by (simp add: block_bytes_4)
  have fit: "?b div 4 mod ?S + ((?b + n) div 4 - ?b div 4) \<le> ?S" by (rule pos_room [OF room4])
  have mono: "?b div 4 \<le> (?b + n) div 4" by (rule div_le_mono) simp
  have "(?b + n) div 4 - ?b div 4 \<le> ?S" using fit by simp
  then have small: "(?b + n) div 4 - ?b div 4 < 2 ^ 32" using assms(1) by (simp add: consts_ok_def)
  have 1: "nat ((int ((?b + n) div SAMPLE) - int (length_tr tr1)) mod 2 ^ 32)
             = (?b + n) div SAMPLE - length_tr tr1"
    unfolding len SAMPLE_4 using mono small by (rule samples_no_wrap)
  have 2: "(?b + n) div SAMPLE - length_tr tr1 \<le> ?S - length_tr tr1 mod ?S"
    using fit by (simp add: len SAMPLE_4)
  have 3: "length_tr tr1 mod ?S + ((?b + n) div SAMPLE - length_tr tr1) \<le> ?S"
    using fit by (simp add: len SAMPLE_4)
  have 4: "length_tr tr1 div ?S = blk" unfolding len r(1) by (simp only: pos_div block_bytes_4)
  have 5: "\<exists>tr3. commit_bytes K tr1 n = Inr tr3 \<and> length_tr tr3 = (?b + n) div SAMPLE"
    using commit_ok [OF assms(1) inv1 live room] by blast
  show ?thesis using 1 2 3 4 5 by blast
qed

theorem commit_within_block_witness:
  "consts_ok K_small \<and> track_inv K_small loaded_track \<and>
   access_pcm_data K_small loaded_track importing_world = (Some (0, 5, 11), loaded_track, importing_world) \<and>
   (11 :: nat) \<le> 11 \<and>
   (\<exists>tr3. commit_bytes K_small loaded_track 11 = Inr tr3 \<and>
      length_tr tr3 = (bytes loaded_track + 11) div SAMPLE)"
proof -
  have l: "(11 :: nat) \<le> 11" by simp
  show ?thesis
    using commit_within_block [OF small_ok loaded_inv loaded_access [of importing_world] l]
      small_ok loaded_inv loaded_access [of importing_world] l
    by blast
qed

subsection \<open>Outcomes of the pump and of \<^verbatim>\<open>track_handle\<close>\<close>

text \<open>
  C8: in a run of \<^verbatim>\<open>read_from_pipe\<close> on a track that satisfies the invariants, a failed
  region request returns -1 (fatal); a read that fails with \<^verbatim>\<open>EAGAIN\<close> returns 0 (pending)
  with the track as it was when the read was issued; any other read error returns -1; a read
  of 0 bytes returns 1 (done); a read of \<open>n > 0\<close> bytes stores and commits \<open>n\<close> bytes and
  the loop goes on from there. The run always returns one of the three codes and leaves
  \<open>pid\<close> alone, and \<^verbatim>\<open>track_handle\<close>, when the poll entry is ready and an import is
  running, calls \<^verbatim>\<open>stop_import\<close> exactly when the code is not 0.
\<close>

theorem pump_and_handle_outcomes:
  assumes "consts_ok K" and "track_inv K tr"
  shows
   "(access_pcm_data K tr w = (None, tr1, w1) \<longrightarrow> read_from_pipe K tr w = Inr (- 1, tr1, w1)) \<and>
    (access_pcm_data K tr w = (Some (blk, fill, len), tr1, w1) \<longrightarrow>
       (sys_read w1 len = (Read_Fail True, w2) \<longrightarrow> read_from_pipe K tr w = Inr (0, tr1, w2)) \<and>
       (sys_read w1 len = (Read_Fail False, w2) \<longrightarrow> read_from_pipe K tr w = Inr (- 1, tr1, w2)) \<and>
       (sys_read w1 len = (Read_Ok [], w2) \<longrightarrow> read_from_pipe K tr w = Inr (1, tr1, w2)) \<and>
       (sys_read w1 len = (Read_Ok bs, w2) \<and> bs \<noteq> [] \<longrightarrow>
          (\<exists>tr2 tr3. store_pcm K tr1 blk fill bs = Inr tr2 \<and>
             commit_bytes K tr2 (length bs) = Inr tr3 \<and> bytes tr3 = bytes tr + length bs \<and>
             read_from_pipe K tr w = read_from_pipe K tr3 w2))) \<and>
    (\<exists>r tr' w'. read_from_pipe K tr w = Inr (r, tr', w') \<and> (r = - 1 \<or> r = 0 \<or> r = 1) \<and>
       pid tr' = pid tr \<and>
       track_handle K tr w =
         (case pe tr of
            None \<Rightarrow> Inr (0, tr, w)
          | Some slot \<Rightarrow>
              if revents slot = 0 \<or> pid tr = 0 then Inr (0, tr, w)
              else if r = 0 then Inr (0, tr', w')
              else (case stop_import tr' w' of
                      Inl err \<Rightarrow> Inl err
                    | Inr (t, u) \<Rightarrow> Inr (0, t, u))))"
proof -
  let ?BB = "TRACK_BLOCK_PCM_BYTES K"
  have none: "access_pcm_data K tr w = (None, tr1, w1) \<longrightarrow> read_from_pipe K tr w = Inr (- 1, tr1, w1)"
    by (simp add: pump_none)
  have some: "(sys_read w1 len = (Read_Fail True, w2) \<longrightarrow> read_from_pipe K tr w = Inr (0, tr1, w2)) \<and>
       (sys_read w1 len = (Read_Fail False, w2) \<longrightarrow> read_from_pipe K tr w = Inr (- 1, tr1, w2)) \<and>
       (sys_read w1 len = (Read_Ok [], w2) \<longrightarrow> read_from_pipe K tr w = Inr (1, tr1, w2)) \<and>
       (sys_read w1 len = (Read_Ok bs, w2) \<and> bs \<noteq> [] \<longrightarrow>
          (\<exists>tr2 tr3. store_pcm K tr1 blk fill bs = Inr tr2 \<and>
             commit_bytes K tr2 (length bs) = Inr tr3 \<and> bytes tr3 = bytes tr + length bs \<and>
             read_from_pipe K tr w = read_from_pipe K tr3 w2))"
    if acc: "access_pcm_data K tr w = (Some (blk, fill, len), tr1, w1)"
  proof -
    note a = access_inv [OF assms acc]
    have r: "blk = bytes tr1 div ?BB" "fill = bytes tr1 mod ?BB" "len = ?BB - fill" "blk < blocks tr1"
      and inv1: "track_inv K tr1" and same: "bytes tr1 = bytes tr"
      using a by simp_all
    have data: "\<exists>tr2 tr3. store_pcm K tr1 blk fill bs = Inr tr2 \<and>
             commit_bytes K tr2 (length bs) = Inr tr3 \<and> bytes tr3 = bytes tr + length bs \<and>
             read_from_pipe K tr w = read_from_pipe K tr3 w2"
      if rd: "sys_read w1 len = (Read_Ok bs, w2)" and ne: "bs \<noteq> []"
    proof -
      have "length bs \<le> len" using sys_read_data [OF rd ne] by simp
      moreover have "fill < ?BB" using block_bytes_pos [OF assms(1)] r by simp
      ultimately have room: "bytes tr1 mod ?BB + length bs \<le> ?BB" using r by linarith
      have live: "bytes tr1 div ?BB < blocks tr1" using r by simp
      obtain tr3 where i: "ingest K tr1 blk fill bs = Inr tr3" and b3: "bytes tr3 = bytes tr1 + length bs"
        using ingest_ok [OF assms(1) inv1 live room] r by auto
      obtain tr2 where st: "store_pcm K tr1 blk fill bs = Inr tr2"
        and c: "commit_bytes K tr2 (length bs) = Inr tr3"
        using i by (auto simp: ingest_def split: sum.splits)
      have "read_from_pipe K tr w = read_from_pipe K tr3 w2"
        using pump_data [OF acc rd ne] i by simp
      then show ?thesis using st c b3 same by auto
    qed
    show ?thesis
      using pump_fail [OF acc, of True w2] pump_fail [OF acc, of False w2] pump_eof [OF acc, of w2] data
      by auto
  qed
  obtain r tr' w' where run: "read_from_pipe K tr w = Inr (r, tr', w')"
    and rs: "r = - 1 \<or> r = 0 \<or> r = 1" and p: "pid tr' = pid tr"
    using pump_inv [OF assms, of w] by blast
  have h: "track_handle K tr w =
         (case pe tr of
            None \<Rightarrow> Inr (0, tr, w)
          | Some slot \<Rightarrow>
              if revents slot = 0 \<or> pid tr = 0 then Inr (0, tr, w)
              else if r = 0 then Inr (0, tr', w')
              else (case stop_import tr' w' of
                      Inl err \<Rightarrow> Inl err
                    | Inr (t, u) \<Rightarrow> Inr (0, t, u)))"
    by (simp add: track_handle_def run split: option.splits)
  show ?thesis using none some run rs p h by blast
qed

lemma ready_inv: "track_inv K_small ready_track"
  by (simp add: track_inv_def K_small_def ready_track_def loaded_track_def importing_track_def
      idle_track_def SAMPLE_4)

lemma ready_access:
  "access_pcm_data K_small ready_track w = (Some (0, 5, 11), ready_track, w)"
  by (simp add: access_pcm_data_def K_small_def ready_track_def loaded_track_def importing_track_def
      idle_track_def block_bytes_4 Let_def)

lemma ready_fields: "pe ready_track = Some \<lparr>pfd = 3, events = POLLIN, revents = 1\<rparr>"
  "pid ready_track = 7" "fd ready_track = 3"
  by (simp_all add: ready_track_def loaded_track_def importing_track_def idle_track_def)

theorem pump_and_handle_outcomes_witness:
  "consts_ok K_small \<and> track_inv K_small ready_track \<and>
   read_from_pipe K_small ready_track (importing_world\<lparr>pipe_in := [Eagain]\<rparr>)
     = Inr (0, ready_track, importing_world\<lparr>pipe_in := []\<rparr>) \<and>
   track_handle K_small ready_track (importing_world\<lparr>pipe_in := [Eagain]\<rparr>)
     = Inr (0, ready_track, importing_world\<lparr>pipe_in := []\<rparr>) \<and>
   read_from_pipe K_small ready_track (importing_world\<lparr>pipe_in := []\<rparr>)
     = Inr (1, ready_track, importing_world\<lparr>pipe_in := []\<rparr>) \<and>
   track_handle K_small ready_track (importing_world\<lparr>pipe_in := []\<rparr>)
     = Inr (0, ready_track\<lparr>pid := 0\<rparr>, importing_world\<lparr>pipe_in := [], open_fds := {}, children := {}\<rparr>) \<and>
   read_from_pipe K_small ready_track (importing_world\<lparr>pipe_in := [Eio]\<rparr>)
     = Inr (- 1, ready_track, importing_world\<lparr>pipe_in := []\<rparr>) \<and>
   (\<exists>tr2 tr3. store_pcm K_small ready_track 0 5 [1, 2, 3] = Inr tr2 \<and>
      commit_bytes K_small tr2 (length [1, 2, 3 :: byte]) = Inr tr3 \<and>
      bytes tr3 = bytes ready_track + length [1, 2, 3 :: byte] \<and>
      read_from_pipe K_small ready_track (importing_world\<lparr>pipe_in := [Data [1, 2, 3]]\<rparr>)
        = read_from_pipe K_small tr3 (importing_world\<lparr>pipe_in := []\<rparr>))"
proof -
  let ?w = "\<lambda>p. importing_world\<lparr>pipe_in := p\<rparr>"
  have again: "sys_read (?w [Eagain]) 11 = (Read_Fail True, ?w [])"
    and eof: "sys_read (?w []) 11 = (Read_Ok [], ?w [])"
    and eio: "sys_read (?w [Eio]) 11 = (Read_Fail False, ?w [])"
    by (simp_all add: sys_read_def)
  have stop: "stop_import ready_track (?w []) =
       Inr (ready_track\<lparr>pid := 0\<rparr>, importing_world\<lparr>pipe_in := [], open_fds := {}, children := {}\<rparr>)"
    by (simp add: stop_import_def sys_close_def sys_waitpid_def ready_fields importing_world_def
        quiet_world_def)
  note t1 = pump_and_handle_outcomes [OF small_ok ready_inv, of "?w [Eagain]" ready_track "?w [Eagain]"
      0 5 11 "?w []" "[]"]
  note t2 = pump_and_handle_outcomes [OF small_ok ready_inv, of "?w []" ready_track "?w []"
      0 5 11 "?w []" "[]"]
  note t3 = pump_and_handle_outcomes [OF small_ok ready_inv, of "?w [Eio]" ready_track "?w [Eio]"
      0 5 11 "?w []" "[]"]
  have r1: "read_from_pipe K_small ready_track (?w [Eagain]) = Inr (0, ready_track, ?w [])"
    using t1 ready_access again by simp
  have h1: "track_handle K_small ready_track (?w [Eagain]) = Inr (0, ready_track, ?w [])"
    using t1 r1 by (auto simp: ready_fields)
  have r2: "read_from_pipe K_small ready_track (?w []) = Inr (1, ready_track, ?w [])"
    using t2 ready_access eof by simp
  have h2: "track_handle K_small ready_track (?w []) =
      Inr (0, ready_track\<lparr>pid := 0\<rparr>, importing_world\<lparr>pipe_in := [], open_fds := {}, children := {}\<rparr>)"
    using t2 r2 by (auto simp: ready_fields stop)
  have r3: "read_from_pipe K_small ready_track (?w [Eio]) = Inr (- 1, ready_track, ?w [])"
    using t3 ready_access eio by simp
  have dat: "sys_read (?w [Data [1, 2, 3]]) 11 = (Read_Ok [1, 2, 3], ?w [])"
    by (simp add: sys_read_def)
  note t4 = pump_and_handle_outcomes [OF small_ok ready_inv, of "?w [Data [1, 2, 3]]" ready_track
      "?w [Data [1, 2, 3]]" 0 5 11 "?w []" "[1, 2, 3]"]
  have r4: "\<exists>tr2 tr3. store_pcm K_small ready_track 0 5 [1, 2, 3] = Inr tr2 \<and>
      commit_bytes K_small tr2 (length [1, 2, 3 :: byte]) = Inr tr3 \<and>
      bytes tr3 = bytes ready_track + length [1, 2, 3 :: byte] \<and>
      read_from_pipe K_small ready_track (?w [Data [1, 2, 3]]) = read_from_pipe K_small tr3 (?w [])"
    using t4 ready_access [of "?w [Data [1, 2, 3]]"] dat by blast
  show ?thesis using small_ok ready_inv r1 h1 r2 h2 r3 r4 by blast
qed

subsection \<open>Chunks of the byte stream\<close>

lemma pump_split:
  assumes ok: "consts_ok K"
  shows "track_inv K tr \<Longrightarrow> a \<noteq> [] \<Longrightarrow> b \<noteq> [] \<Longrightarrow>
         forget_pipe (read_from_pipe K tr (w\<lparr>pipe_in := Data (a @ b) # es\<rparr>)) =
         forget_pipe (read_from_pipe K tr (w\<lparr>pipe_in := Data a # Data b # es\<rparr>))"
proof (induction "length a" arbitrary: a tr w rule: less_induct)
  case less
  let ?BB = "TRACK_BLOCK_PCM_BYTES K"
  let ?F = "Data (a @ b) # es"
  let ?S = "Data a # Data b # es"
  obtain r0 tr1 w1 where acc: "access_pcm_data K tr w = (r0, tr1, w1)"
    by (cases "access_pcm_data K tr w") auto
  have accF: "access_pcm_data K tr (w\<lparr>pipe_in := ?F\<rparr>) = (r0, tr1, w1\<lparr>pipe_in := ?F\<rparr>)"
    and accS: "access_pcm_data K tr (w\<lparr>pipe_in := ?S\<rparr>) = (r0, tr1, w1\<lparr>pipe_in := ?S\<rparr>)"
    by (simp_all add: access_pipe acc)
  note ai = access_inv [OF ok less.prems(1) acc]
  show ?case
  proof (cases r0)
    case None
    then show ?thesis
      using pump_none [of K tr _ tr1] accF accS by (simp add: forget_pipe_def)
  next
    case (Some reg)
    obtain blk fill len where reg: "reg = (blk, fill, len)" by (cases reg) auto
    have r: "blk = bytes tr1 div ?BB" "fill = bytes tr1 mod ?BB" "len = ?BB - fill" "0 < len"
      "blk < blocks tr1" and inv1: "track_inv K tr1"
      using ai Some reg by auto
    have accF': "access_pcm_data K tr (w\<lparr>pipe_in := ?F\<rparr>) = (Some (blk, fill, len), tr1, w1\<lparr>pipe_in := ?F\<rparr>)"
      and accS': "access_pcm_data K tr (w\<lparr>pipe_in := ?S\<rparr>) = (Some (blk, fill, len), tr1, w1\<lparr>pipe_in := ?S\<rparr>)"
      using accF accS Some reg by simp_all
    have fl: "fill < ?BB" using block_bytes_pos [OF ok] r by simp
    have live: "bytes tr1 div ?BB < blocks tr1" using r by simp
    show ?thesis
    proof (cases "len \<le> length a")
      case True
      have ne: "take len a \<noteq> []" using less.prems(2) r(4) by simp
      have rdF: "sys_read (w1\<lparr>pipe_in := ?F\<rparr>) len =
          (Read_Ok (take len a), w1\<lparr>pipe_in := Data (drop len a @ b) # es\<rparr>)"
        using sys_read_Data [where w = w1 and c = "a @ b" and es = es and len = len] True less.prems
        by simp
      have rdS: "sys_read (w1\<lparr>pipe_in := ?S\<rparr>) len =
          (Read_Ok (take len a),
           w1\<lparr>pipe_in := (if drop len a = [] then Data b # es else Data (drop len a) # Data b # es)\<rparr>)"
        using sys_read_Data [where w = w1 and c = a and es = "Data b # es" and len = len] by simp
      have room: "bytes tr1 mod ?BB + length (take len a) \<le> ?BB" using r fl True by simp
      obtain tr3 where i: "ingest K tr1 blk fill (take len a) = Inr tr3" and inv3: "track_inv K tr3"
        using ingest_ok [OF ok inv1 live room] r by auto
      have F: "read_from_pipe K tr (w\<lparr>pipe_in := ?F\<rparr>) =
               read_from_pipe K tr3 (w1\<lparr>pipe_in := Data (drop len a @ b) # es\<rparr>)"
        using pump_data [OF accF' rdF ne] by (simp only: i sum.case)
      have S: "read_from_pipe K tr (w\<lparr>pipe_in := ?S\<rparr>) =
               read_from_pipe K tr3 (w1\<lparr>pipe_in :=
                 (if drop len a = [] then Data b # es else Data (drop len a) # Data b # es)\<rparr>)"
        using pump_data [OF accS' rdS ne] by (simp only: i sum.case)
      show ?thesis
      proof (cases "drop len a = []")
        case True
        then show ?thesis unfolding F S by simp
      next
        case False
        have "length (drop len a) < length a" using r(4) less.prems(2) by simp
        from less.hyps [OF this inv3 False less.prems(3), of w1]
        show ?thesis unfolding F S using False by simp
      qed
    next
      case False
      define la where "la = length a"
      define b1 where "b1 = take (len - la) b"
      define P2 where "P2 = (if drop (len - la) b = [] then es else Data (drop (len - la) b) # es)"
      have la: "la < len" using False by (simp add: la_def)
      have b1: "b1 \<noteq> []" "length b1 \<le> len - la" using la less.prems by (simp_all add: b1_def)
      have neF: "a @ b1 \<noteq> []" using less.prems by simp
      have rdF: "sys_read (w1\<lparr>pipe_in := ?F\<rparr>) len = (Read_Ok (a @ b1), w1\<lparr>pipe_in := P2\<rparr>)"
        using sys_read_Data [where w = w1 and c = "a @ b" and es = es and len = len] False
        by (simp add: b1_def P2_def la_def)
      have rdS: "sys_read (w1\<lparr>pipe_in := ?S\<rparr>) len = (Read_Ok a, w1\<lparr>pipe_in := Data b # es\<rparr>)"
        using sys_read_Data [where w = w1 and c = a and es = "Data b # es" and len = len] False
        by simp
      have rooma: "bytes tr1 mod ?BB + length a \<le> ?BB" using r fl la by (simp add: la_def)
      have roomab: "bytes tr1 mod ?BB + length a + length b1 \<le> ?BB" using r fl la b1 by (simp add: la_def)
      obtain tra where ia: "ingest K tr1 blk fill a = Inr tra" and inva: "track_inv K tra"
        and ba: "bytes tra = bytes tr1 + la" and bla: "blocks tra = blocks tr1"
        using ingest_ok [OF ok inv1 live rooma] r by (auto simp: la_def)
      have comp: "ingest K tr1 blk fill (a @ b1) = ingest K tra blk (fill + la) b1"
        using ingest_compose [OF ok inv1 live roomab b1(1)] r ia by (simp add: la_def)
      have F: "read_from_pipe K tr (w\<lparr>pipe_in := ?F\<rparr>) =
               (case ingest K tra blk (fill + la) b1 of
                  Inl err \<Rightarrow> Inl err
                | Inr tr3 \<Rightarrow> read_from_pipe K tr3 (w1\<lparr>pipe_in := P2\<rparr>))"
        using pump_data [OF accF' rdF neF] by (simp only: comp)
      have S1: "read_from_pipe K tr (w\<lparr>pipe_in := ?S\<rparr>) =
               read_from_pipe K tra (w1\<lparr>pipe_in := Data b # es\<rparr>)"
        using pump_data [OF accS' rdS less.prems(2)] by (simp only: ia sum.case)
      have nx: "bytes tr1 mod (TRACK_BLOCK_SAMPLES K * 4) + la < TRACK_BLOCK_SAMPLES K * 4"
        using r fl la by (simp add: block_bytes_4)
      have pa: "bytes tra div ?BB = blk" "bytes tra mod ?BB = fill + la"
        using pos_next [OF nx] r by (simp_all add: ba block_bytes_4)
      have acca: "access_pcm_data K tra (w1\<lparr>pipe_in := Data b # es\<rparr>) =
            (Some (blk, fill + la, len - la), tra, w1\<lparr>pipe_in := Data b # es\<rparr>)"
      proof -
        have "bytes tra div ?BB < blocks tra" using pa r bla by simp
        from access_no_alloc [OF this] show ?thesis using pa r by simp
      qed
      have rda: "sys_read (w1\<lparr>pipe_in := Data b # es\<rparr>) (len - la) = (Read_Ok b1, w1\<lparr>pipe_in := P2\<rparr>)"
        using sys_read_Data [where w = w1 and c = b and es = es and len = "len - la"]
        by (simp add: b1_def P2_def)
      have S2: "read_from_pipe K tra (w1\<lparr>pipe_in := Data b # es\<rparr>) =
               (case ingest K tra blk (fill + la) b1 of
                  Inl err \<Rightarrow> Inl err
                | Inr tr3 \<Rightarrow> read_from_pipe K tr3 (w1\<lparr>pipe_in := P2\<rparr>))"
        by (rule pump_data [OF acca rda b1(1)])
      show ?thesis by (simp only: F S1 S2)
    qed
  qed
qed

lemma pump_chunks:
  assumes ok: "consts_ok K" and inv: "track_inv K tr"
  shows "cs \<noteq> [] \<Longrightarrow> (\<And>c. c \<in> set cs \<Longrightarrow> c \<noteq> []) \<Longrightarrow>
         forget_pipe (read_from_pipe K tr (w\<lparr>pipe_in := map Data cs @ es\<rparr>)) =
         forget_pipe (read_from_pipe K tr (w\<lparr>pipe_in := Data (concat cs) # es\<rparr>))"
proof (induction cs arbitrary: es rule: rev_nonempty_induct)
  case (single c)
  show ?case by simp
next
  case (snoc c cs)
  have ne: "concat cs \<noteq> []" using snoc.hyps(1) snoc.prems by (cases cs) auto
  have c: "c \<noteq> []" using snoc.prems by simp
  have "forget_pipe (read_from_pipe K tr (w\<lparr>pipe_in := map Data (cs @ [c]) @ es\<rparr>)) =
        forget_pipe (read_from_pipe K tr (w\<lparr>pipe_in := map Data cs @ (Data c # es)\<rparr>))"
    by simp
  also have "\<dots> = forget_pipe (read_from_pipe K tr (w\<lparr>pipe_in := Data (concat cs) # Data c # es\<rparr>))"
    by (rule snoc.IH) (simp add: snoc.prems)
  also have "\<dots> = forget_pipe (read_from_pipe K tr (w\<lparr>pipe_in := Data (concat cs @ c) # es\<rparr>))"
    by (rule pump_split [OF ok inv ne c, symmetric])
  finally show ?case by simp
qed

lemma pump_no_chunks:
  "forget_pipe (read_from_pipe K tr (w\<lparr>pipe_in := []\<rparr>)) =
   forget_pipe (read_from_pipe K tr (w\<lparr>pipe_in := [Data []]\<rparr>))"
proof -
  obtain r0 tr1 w1 where acc: "access_pcm_data K tr w = (r0, tr1, w1)"
    by (cases "access_pcm_data K tr w") auto
  have accE: "access_pcm_data K tr (w\<lparr>pipe_in := []\<rparr>) = (r0, tr1, w1\<lparr>pipe_in := []\<rparr>)"
    and accD: "access_pcm_data K tr (w\<lparr>pipe_in := [Data []]\<rparr>) = (r0, tr1, w1\<lparr>pipe_in := [Data []]\<rparr>)"
    by (simp_all add: access_pipe acc)
  show ?thesis
  proof (cases r0)
    case None
    then show ?thesis
      using pump_none [of K tr _ tr1] accE accD by (simp add: forget_pipe_def)
  next
    case (Some reg)
    obtain blk fill len where reg: "reg = (blk, fill, len)" by (cases reg) auto
    have rdE: "sys_read (w1\<lparr>pipe_in := []\<rparr>) len = (Read_Ok [], w1\<lparr>pipe_in := []\<rparr>)"
      and rdD: "sys_read (w1\<lparr>pipe_in := [Data []]\<rparr>) len = (Read_Ok [], w1\<lparr>pipe_in := []\<rparr>)"
      by (simp_all add: sys_read_def)
    have "read_from_pipe K tr (w\<lparr>pipe_in := []\<rparr>) = Inr (1, tr1, w1\<lparr>pipe_in := []\<rparr>)"
      using pump_eof [OF _ rdE] accE Some reg by simp
    moreover have "read_from_pipe K tr (w\<lparr>pipe_in := [Data []]\<rparr>) = Inr (1, tr1, w1\<lparr>pipe_in := []\<rparr>)"
      using pump_eof [OF _ rdD] accD Some reg by simp
    ultimately show ?thesis by simp
  qed
qed

text \<open>
  C3: for a track that satisfies the invariants and a byte stream cut into non-empty chunks
  in any way, the pump fed the chunks one after the other ends with the same return code,
  the same track (counters, accumulators, and the \<open>pcm\<close>, \<open>ppm\<close> and \<open>overview\<close>
  bytes of every block) and the same environment as the pump fed the whole stream as one
  buffer; both runs return.
\<close>

theorem byte_chunking:
  assumes "consts_ok K" and "track_inv K tr" and "\<forall>c \<in> set cs. c \<noteq> []"
  shows "forget_pipe (read_from_pipe K tr (w\<lparr>pipe_in := map Data cs\<rparr>)) =
         forget_pipe (read_from_pipe K tr (w\<lparr>pipe_in := [Data (concat cs)]\<rparr>)) \<and>
         (\<exists>r tr' w'. read_from_pipe K tr (w\<lparr>pipe_in := map Data cs\<rparr>) = Inr (r, tr', w') \<and>
            track_inv K tr')"
proof -
  have eq: "forget_pipe (read_from_pipe K tr (w\<lparr>pipe_in := map Data cs\<rparr>)) =
            forget_pipe (read_from_pipe K tr (w\<lparr>pipe_in := [Data (concat cs)]\<rparr>))"
  proof (cases "cs = []")
    case True
    then show ?thesis by (simp add: pump_no_chunks)
  next
    case False
    have "forget_pipe (read_from_pipe K tr (w\<lparr>pipe_in := map Data cs @ []\<rparr>)) =
          forget_pipe (read_from_pipe K tr (w\<lparr>pipe_in := Data (concat cs) # []\<rparr>))"
      using assms(3) by (intro pump_chunks [OF assms(1,2) False]) simp
    then show ?thesis by simp
  qed
  have "\<exists>r tr' w'. read_from_pipe K tr (w\<lparr>pipe_in := map Data cs\<rparr>) = Inr (r, tr', w') \<and>
            track_inv K tr'"
    using pump_inv [OF assms(1,2), of "w\<lparr>pipe_in := map Data cs\<rparr>"] by blast
  with eq show ?thesis by blast
qed

theorem byte_chunking_witness:
  "consts_ok K_small \<and> track_inv K_small loaded_track \<and>
   forget_pipe (read_from_pipe K_small loaded_track
      (importing_world\<lparr>pipe_in := [Data [1, 2, 3], Data [4, 5]]\<rparr>)) =
   forget_pipe (read_from_pipe K_small loaded_track
      (importing_world\<lparr>pipe_in := [Data [1, 2, 3, 4, 5]]\<rparr>))"
proof -
  have c: "\<forall>c \<in> set [[1, 2, 3], [4, 5 :: byte]]. c \<noteq> []" by simp
  show ?thesis
    using byte_chunking [OF small_ok loaded_inv c, of importing_world] small_ok loaded_inv c
    by simp
qed

end
